theory Spec2Isabelle
  imports Main "HOL-Library.Sublist"
begin

section \<open>Text\<close>

text \<open>
  The script \<^verbatim>\<open>fix_menu_corruption.py\<close> reads one file as text, rewrites it in memory by
  a fixed sequence of \<^verbatim>\<open>re.sub\<close> and \<^verbatim>\<open>str.replace\<close> calls, and writes it back when
  it changed. A Python \<^verbatim>\<open>str\<close> is a sequence of Unicode code points, so the text is a
  list of code points here; \<open>cps\<close> turns a literal into such a list.
\<close>

type_synonym cp = nat
type_synonym str = "cp list"

abbreviation cps :: "string \<Rightarrow> str" where
  "cps \<equiv> map of_char"

subsection \<open>Character classes of the patterns\<close>

text \<open>
  \<^verbatim>\<open>\s\<close> in a \<^verbatim>\<open>str\<close> pattern is Unicode whitespace: the ASCII characters
  \<^verbatim>\<open>\t \n \v \f \r\<close>, the separators 28 to 31, the space, and the non-ASCII white
  space characters NEL, NBSP, U+1680, U+2000 to U+200A, U+2028, U+2029, U+202F, U+205F, U+3000.
\<close>

definition is_space :: "cp \<Rightarrow> bool" where
  "is_space c \<longleftrightarrow>
     (9 \<le> c \<and> c \<le> 13) \<or> (28 \<le> c \<and> c \<le> 32) \<or> c = 133 \<or> c = 160 \<or> c = 5760 \<or>
     (8192 \<le> c \<and> c \<le> 8202) \<or> c = 8232 \<or> c = 8233 \<or> c = 8239 \<or> c = 8287 \<or> c = 12288"

text \<open>\<^verbatim>\<open>[a-zA-Z0-9]\<close>, \<^verbatim>\<open>[a-zA-Z0-9-]\<close> and \<^verbatim>\<open>[a-zA-Z-]\<close>.\<close>

definition is_letter :: "cp \<Rightarrow> bool" where
  "is_letter c \<longleftrightarrow> (65 \<le> c \<and> c \<le> 90) \<or> (97 \<le> c \<and> c \<le> 122)"

definition is_alnum :: "cp \<Rightarrow> bool" where
  "is_alnum c \<longleftrightarrow> is_letter c \<or> (48 \<le> c \<and> c \<le> 57)"

definition is_alnum_hyphen :: "cp \<Rightarrow> bool" where
  "is_alnum_hyphen c \<longleftrightarrow> is_alnum c \<or> c = 45"

definition is_letter_hyphen :: "cp \<Rightarrow> bool" where
  "is_letter_hyphen c \<longleftrightarrow> is_letter c \<or> c = 45"

text \<open>
  \<^verbatim>\<open>\b\<close> looks at \<^verbatim>\<open>\w\<close>, which for a \<^verbatim>\<open>str\<close> pattern is every Unicode alphanumeric
  character and the underscore. The table of the alphanumeric characters beyond ASCII belongs
  to the Python runtime, not to the script: it is the parameter \<open>U\<close> of everything below.
\<close>

definition is_word :: "(cp \<Rightarrow> bool) \<Rightarrow> cp \<Rightarrow> bool" where
  "is_word U c \<longleftrightarrow> (if c < 128 then is_alnum c \<or> c = 95 else U c)"

section \<open>The regular expressions of the script\<close>

text \<open>
  The patterns of the script are sequences of: a literal character, one character of a class
  (\<^verbatim>\<open>\s\<close>), a greedy repetition \<^verbatim>\<open>+\<close> of a class (\<^verbatim>\<open>\s+\<close>), a capturing group around
  such a repetition (\<^verbatim>\<open>([a-zA-Z0-9]+)\<close>), and the word boundary \<^verbatim>\<open>\b\<close>.
\<close>

datatype item =
    Chr cp
  | Set "cp \<Rightarrow> bool"
  | Plus "cp \<Rightarrow> bool"
  | Cap "cp \<Rightarrow> bool"
  | WordB

abbreviation lit :: "string \<Rightarrow> item list" where
  "lit s \<equiv> map Chr (cps s)"

text \<open>
  \<^verbatim>\<open>\b\<close> holds where exactly one of the characters before and after the position is a word
  character; the start and the end of the text count as a character that is not.
\<close>

definition at_boundary :: "(cp \<Rightarrow> bool) \<Rightarrow> cp option \<Rightarrow> str \<Rightarrow> bool" where
  "at_boundary U p s \<longleftrightarrow>
     (case p of None \<Rightarrow> False | Some a \<Rightarrow> is_word U a) \<noteq>
     (case s of [] \<Rightarrow> False | b # _ \<Rightarrow> is_word U b)"

text \<open>
  The backtracking matcher: \<open>rx_match U pat p s\<close> matches \<open>pat\<close> at the start of \<open>s\<close>, where
  \<open>p\<close> is the character before \<open>s\<close> in the text (if any), and returns the captured groups,
  the last character before the rest, and the rest. A repetition takes as many characters as
  it can and gives them back one by one while the remainder of the pattern fails
  (\<open>rx_repeat\<close>).
\<close>

fun rx_match :: "(cp \<Rightarrow> bool) \<Rightarrow> item list \<Rightarrow> cp option \<Rightarrow> str \<Rightarrow> (str list \<times> cp option \<times> str) option"
  and rx_repeat :: "(cp \<Rightarrow> bool) \<Rightarrow> bool \<Rightarrow> item list \<Rightarrow> str \<Rightarrow> nat \<Rightarrow> (str list \<times> cp option \<times> str) option"
  where
  "rx_match U [] p s = Some ([], p, s)"
| "rx_match U (Chr c # r) p [] = None"
| "rx_match U (Chr c # r) p (x # t) = (if x = c then rx_match U r (Some x) t else None)"
| "rx_match U (Set A # r) p [] = None"
| "rx_match U (Set A # r) p (x # t) = (if A x then rx_match U r (Some x) t else None)"
| "rx_match U (Plus A # r) p s = rx_repeat U False r s (length (takeWhile A s))"
| "rx_match U (Cap A # r) p s = rx_repeat U True r s (length (takeWhile A s))"
| "rx_match U (WordB # r) p s = (if at_boundary U p s then rx_match U r p s else None)"
| "rx_repeat U cap r s 0 = None"
| "rx_repeat U cap r s (Suc n) =
     (case rx_match U r (Some (s ! n)) (drop (Suc n) s) of
        Some (g, p', t) \<Rightarrow> Some (if cap then take (Suc n) s # g else g, p', t)
      | None \<Rightarrow> rx_repeat U cap r s n)"

text \<open>
  A replacement template (\<^verbatim>\<open>r'</\1>'\<close>): literal text and references to groups. The
  templates of the script refer to the groups of their own pattern only.
\<close>

datatype piece = Txt str | Ref nat

fun expand :: "piece list \<Rightarrow> str list \<Rightarrow> str" where
  "expand [] g = []"
| "expand (Txt t # ps) g = t @ expand ps g"
| "expand (Ref n # ps) g = (if 0 < n \<and> n \<le> length g then g ! (n - 1) else []) @ expand ps g"

text \<open>
  \<^verbatim>\<open>re.sub\<close>: the text is scanned from the left; where the pattern matches, the match is
  replaced and the scan goes on behind it; where it does not, the character is kept. (The
  last branch, for a match of no character, is never taken by a pattern of the script.)
\<close>

fun sub :: "(cp \<Rightarrow> bool) \<Rightarrow> item list \<Rightarrow> piece list \<Rightarrow> cp option \<Rightarrow> str \<Rightarrow> str" where
  "sub U pat rep p [] = (case rx_match U pat p [] of Some (g, _, _) \<Rightarrow> expand rep g | None \<Rightarrow> [])"
| "sub U pat rep p (c # s) =
     (case rx_match U pat p (c # s) of
        None \<Rightarrow> c # sub U pat rep (Some c) s
      | Some (g, p', r) \<Rightarrow>
          if length r < length (c # s) then expand rep g @ sub U pat rep p' r
          else expand rep g @ c # sub U pat rep (Some c) s)"

definition re_sub :: "(cp \<Rightarrow> bool) \<Rightarrow> item list \<Rightarrow> piece list \<Rightarrow> str \<Rightarrow> str" where
  "re_sub U pat rep s = sub U pat rep None s"

text \<open>\<^verbatim>\<open>str.replace\<close>: every occurrence of \<open>old\<close>, found from the left without overlap.\<close>

fun replace :: "str \<Rightarrow> str \<Rightarrow> str \<Rightarrow> str" where
  "replace old new [] = (if old = [] then new else [])"
| "replace old new (c # s) =
     (if old = [] then new @ c # replace old new s
      else if prefix old (c # s) then new @ replace old new (drop (length old) (c # s))
      else c # replace old new s)"

section \<open>The passes\<close>

text \<open>1. \<^verbatim>\<open>re.sub(r'</\s+([a-zA-Z0-9]+)>', r'</\1>', content)\<close>\<close>

definition closing_tag :: "item list" where
  "closing_tag = lit ''</'' @ [Plus is_space, Cap is_alnum] @ lit ''>''"

definition fix_closing_tags :: "(cp \<Rightarrow> bool) \<Rightarrow> str \<Rightarrow> str" where
  "fix_closing_tags U = re_sub U closing_tag [Txt (cps ''</''), Ref 1, Txt (cps ''>'')]"

text \<open>2. \<^verbatim>\<open>re.sub(r'<\s+([a-zA-Z0-9]+)', r'<\1', content)\<close>\<close>

definition opening_tag :: "item list" where
  "opening_tag = lit ''<'' @ [Plus is_space, Cap is_alnum]"

definition fix_opening_tags :: "(cp \<Rightarrow> bool) \<Rightarrow> str \<Rightarrow> str" where
  "fix_opening_tags U = re_sub U opening_tag [Txt (cps ''<''), Ref 1]"

text \<open>3. \<^verbatim>\<open>re.sub(r'\b([a-zA-Z0-9]+)\s-\s([a-zA-Z0-9]+)=', r'\1-\2=', content)\<close>\<close>

definition attr_hyphen :: "item list" where
  "attr_hyphen = [WordB, Cap is_alnum, Set is_space] @ lit ''-'' @ [Set is_space, Cap is_alnum] @ lit ''=''"

definition fix_attr_hyphens :: "(cp \<Rightarrow> bool) \<Rightarrow> str \<Rightarrow> str" where
  "fix_attr_hyphens U = re_sub U attr_hyphen [Ref 1, Txt (cps ''-''), Ref 2, Txt (cps ''='')]"

text \<open>4. \<^verbatim>\<open>re.sub(r'\b([a-zA-Z0-9-]+)\s=\s"', r'\1="', content)\<close>\<close>

definition attr_equals :: "item list" where
  "attr_equals = [WordB, Cap is_alnum_hyphen, Set is_space] @ lit ''='' @ [Set is_space, Chr 34]"

definition fix_attr_equals :: "(cp \<Rightarrow> bool) \<Rightarrow> str \<Rightarrow> str" where
  "fix_attr_equals U = re_sub U attr_equals [Ref 1, Txt [61, 34]]"

text \<open>
  5. The loop over \<^verbatim>\<open>known_css_props\<close>: for each \<^verbatim>\<open>prop\<close> the pattern is
  \<^verbatim>\<open>r'\b' + prop + r'\s-\s([a-zA-Z-]+)'\<close> and the replacement
  \<^verbatim>\<open>f"{prop}-{m.group(1)}"\<close>.
\<close>

definition known_css_props :: "str list" where
  "known_css_props = map cps
     [''box'', ''text'', ''border'', ''z'', ''pointer'', ''background'', ''margin'', ''padding'',
      ''flex'', ''grid'', ''align'', ''justify'', ''overflow'', ''font'', ''line'']"

definition css_prop :: "str \<Rightarrow> item list" where
  "css_prop prop = [WordB] @ map Chr prop @ [Set is_space] @ lit ''-'' @ [Set is_space, Cap is_letter_hyphen]"

definition fix_css_prop :: "(cp \<Rightarrow> bool) \<Rightarrow> str \<Rightarrow> str \<Rightarrow> str" where
  "fix_css_prop U prop = re_sub U (css_prop prop) [Txt prop, Txt (cps ''-''), Ref 1]"

definition fix_css_props :: "(cp \<Rightarrow> bool) \<Rightarrow> str \<Rightarrow> str" where
  "fix_css_props U content = foldl (\<lambda>content prop. fix_css_prop U prop content) content known_css_props"

text \<open>6. The loop over \<^verbatim>\<open>prefixes\<close>, whose body is \<^verbatim>\<open>pass\<close>.\<close>

definition prefixes :: "str list" where
  "prefixes = map cps
     [''mp-'', ''btn-'', ''progress-'', ''stats-'', ''settings-'', ''battle-'', ''map-'', ''quest-'',
      ''achievement-'']"

definition prefix_loop :: "str \<Rightarrow> str" where
  "prefix_loop content = foldl (\<lambda>content prefix. content) content prefixes"

text \<open>The \<^verbatim>\<open>content.replace\<close> calls on selectors and identifiers, in the order of the script.\<close>

definition selector_fixes :: "(str \<times> str) list" where
  "selector_fixes =
  [(cps ''.mp-mode - btn'', cps ''.mp-mode-btn''),
   (cps ''#mp-join - room - modal'', cps ''#mp-join-room-modal''),
   (cps ''#mp-room - details'', cps ''#mp-room-details''),
   (cps ''room - details'', cps ''room-details''),
   (cps ''mp - room'', cps ''mp-room''),
   (cps ''mp - btn'', cps ''mp-btn''),
   (cps ''mp - create'', cps ''mp-create''),
   (cps ''mp - connection'', cps ''mp-connection''),
   (cps ''mp - status'', cps ''mp-status''),
   (cps ''mp - rooms'', cps ''mp-rooms''),
   (cps ''battle - btn'', cps ''battle-btn''),
   (cps ''progress - tab'', cps ''progress-tab''),
   (cps ''progress - content'', cps ''progress-content''),
   (cps ''progress - level'', cps ''progress-level''),
   (cps ''progress - stat'', cps ''progress-stat''),
   (cps ''progress - bonus'', cps ''progress-bonus''),
   (cps ''progress - next'', cps ''progress-next''),
   (cps ''progress - xp'', cps ''progress-xp''),
   (cps ''quest - card'', cps ''quest-card''),
   (cps ''quest - header'', cps ''quest-header''),
   (cps ''quest - name'', cps ''quest-name''),
   (cps ''quest - status'', cps ''quest-status''),
   (cps ''quest - description'', cps ''quest-description''),
   (cps ''quest - progress'', cps ''quest-progress''),
   (cps ''quest - rewards'', cps ''quest-rewards''),
   (cps ''quest - reward'', cps ''quest-reward''),
   (cps ''achievement - card'', cps ''achievement-card''),
   (cps ''achievement - header'', cps ''achievement-header''),
   (cps ''achievement - icon'', cps ''achievement-icon''),
   (cps ''achievement - name'', cps ''achievement-name''),
   (cps ''achievement - tier'', cps ''achievement-tier''),
   (cps ''achievement - description'', cps ''achievement-description''),
   (cps ''achievement - reward'', cps ''achievement-reward''),
   (cps ''achievement - status'', cps ''achievement-status''),
   (cps ''achievement - category'', cps ''achievement-category''),
   (cps ''map - card'', cps ''map-card''),
   (cps ''map - grid'', cps ''map-grid''),
   (cps ''map - selection'', cps ''map-selection''),
   (cps ''panel - content'', cps ''panel-content''),
   (cps ''panel - title'', cps ''panel-title''),
   (cps ''panel - close'', cps ''panel-close''),
   (cps ''panel - btn'', cps ''panel-btn''),
   (cps ''panel - buttons'', cps ''panel-buttons''),
   (cps ''panel - header'', cps ''panel-header''),
   (cps ''panel - overlay'', cps ''panel-overlay''),
   (cps ''play - window'', cps ''play-window''),
   (cps ''window - actions'', cps ''window-actions''),
   (cps ''window - btn'', cps ''window-btn''),
   (cps ''section - title'', cps ''section-title''),
   (cps ''mode - buttons'', cps ''mode-buttons''),
   (cps ''game - type'', cps ''game-type''),
   (cps ''btn - label'', cps ''btn-label''),
   (cps ''btn - icon'', cps ''btn-icon'')]"

text \<open>The \<^verbatim>\<open>content.replace\<close> calls on phrases of the prose, in the order of the script.\<close>

definition prose_fixes :: "(str \<times> str) list" where
  "prose_fixes =
  [(cps ''Free -for-All'', cps ''Free-for-All''),
   (cps ''Co - op'', cps ''Co-op''),
   (cps ''Free - for - All'', cps ''Free-for-All'')]"

definition replace_all :: "(str \<times> str) list \<Rightarrow> str \<Rightarrow> str" where
  "replace_all table content = foldl (\<lambda>content (old, new). replace old new content) content table"

definition fix_selectors :: "str \<Rightarrow> str" where
  "fix_selectors = replace_all selector_fixes"

definition fix_prose :: "str \<Rightarrow> str" where
  "fix_prose = replace_all prose_fixes"

section \<open>The script\<close>

text \<open>The statements between the read and the comparison, in their order.\<close>

definition pipeline :: "(cp \<Rightarrow> bool) \<Rightarrow> str \<Rightarrow> str" where
  "pipeline U original_content =
     fix_prose (fix_selectors (prefix_loop (fix_css_props U (fix_attr_equals U
       (fix_attr_hyphens U (fix_opening_tags U (fix_closing_tags U original_content)))))))"

text \<open>
  What the script touches of the world: the file behind \<^verbatim>\<open>file_path\<close> and the standard
  output. \<open>target\<close> is what \<^verbatim>\<open>open(file_path, "r", encoding="utf-8")\<close> and \<^verbatim>\<open>f.read()\<close>
  give: the decoded text, or the exception they raise. \<open>writing\<close> is what happens when the
  script comes to lines 124 and 125. \<open>OpenRaises e\<close>: \<^verbatim>\<open>open(file_path, "w", encoding="utf-8")\<close>
  raises \<open>e\<close> and the file stays as it is. \<open>WriteRaises e k\<close>: the file is opened, which
  empties it, and \<open>e\<close> is raised by \<^verbatim>\<open>f.write(content)\<close> or where the \<^verbatim>\<open>with\<close> block
  closes the file, when \<open>k\<close> bytes of the encoded text have reached the file. \<open>Written\<close>:
  the whole text is written and the file closed. Whatever else the world holds is the
  extension of the record.
\<close>

datatype io_error = FileNotFoundError | PermissionError | UnicodeDecodeError | OSError

datatype write_result = Written | OpenRaises io_error | WriteRaises io_error nat

datatype effect = Write str | Print str

record world =
  target :: "io_error + str"
  writing :: write_result

text \<open>
  The number of bytes of a character in UTF-8, and what a later read gives of a file that
  holds the first \<open>k\<close> bytes of the encoding of a text: the characters whose bytes are all
  there, or the exception of the decoder when the last of them is cut. A text that was read
  from a UTF-8 file holds no surrogate, and the passes add ASCII characters only, so that
  encoding the text of the script cannot fail. The translation of line ends in text mode is
  undone by reading and is left out.
\<close>

definition utf8_length :: "cp \<Rightarrow> nat" where
  "utf8_length c = (if c < 128 then 1 else if c < 2048 then 2 else if c < 65536 then 3 else 4)"

fun cut_off :: "nat \<Rightarrow> str \<Rightarrow> io_error + str" where
  "cut_off k [] = Inr []"
| "cut_off k (c # s) =
     (if k = 0 then Inr []
      else if k < utf8_length c then Inl UnicodeDecodeError
      else (case cut_off (k - utf8_length c) s of
              Inl e \<Rightarrow> Inl e
            | Inr t \<Rightarrow> Inr (c # t)))"

text \<open>
  A run gives the world after it, the effects it had in their order, and the exception that
  ended it, if any. No exception is caught in the script. \<open>Write content\<close> is the call
  \<^verbatim>\<open>f.write(content)\<close> on the file opened by line 124, \<open>Print\<close> a call of \<^verbatim>\<open>print\<close>.
\<close>

definition run :: "(cp \<Rightarrow> bool) \<Rightarrow> 'a world_scheme \<Rightarrow> 'a world_scheme \<times> effect list \<times> io_error option" where
  "run U w =
     (case target w of
        Inl e \<Rightarrow> (w, [], Some e)
      | Inr original_content \<Rightarrow>
          let content = pipeline U original_content in
          if content \<noteq> original_content then
            (case writing w of
               OpenRaises e \<Rightarrow> (w, [], Some e)
             | WriteRaises e k \<Rightarrow> (w\<lparr>target := cut_off k content\<rparr>, [Write content], Some e)
             | Written \<Rightarrow> (w\<lparr>target := Inr content\<rparr>,
                           [Write content, Print (cps ''Fixed corruption in menu.ts'')], None))
          else (w, [Print (cps ''No changes needed'')], None))"

text \<open>
  The script without its loop over \<^verbatim>\<open>prefixes\<close>, as the specification asks a
  reimplementation to be.
\<close>

definition pipeline_without_prefix_loop :: "(cp \<Rightarrow> bool) \<Rightarrow> str \<Rightarrow> str" where
  "pipeline_without_prefix_loop U original_content =
     fix_prose (fix_selectors (fix_css_props U (fix_attr_equals U
       (fix_attr_hyphens U (fix_opening_tags U (fix_closing_tags U original_content))))))"

text \<open>
  A table for the examples: no character beyond ASCII counts as alphanumeric. Where the text
  of an example is ASCII, the table is not looked at.
\<close>

definition ascii_words :: "cp \<Rightarrow> bool" where
  "ascii_words c = False"

section \<open>Notions for the statements and their proofs\<close>

text \<open>The character before the end of \<open>s\<close>, when \<open>p\<close> is the character before \<open>s\<close>.\<close>

definition before :: "cp option \<Rightarrow> str \<Rightarrow> cp option" where
  "before p s = (if s = [] then p else Some (last s))"

text \<open>
  A pattern is consuming when each of its matches takes at least one character; a pattern
  is local to \<open>pre\<close> before \<open>tail\<close> when a match that starts in \<open>pre\<close> is the same with
  and without \<open>tail\<close> behind it.
\<close>

definition consuming :: "(cp \<Rightarrow> bool) \<Rightarrow> item list \<Rightarrow> bool" where
  "consuming U pat \<longleftrightarrow>
     (\<forall>p s g q r. rx_match U pat p s = Some (g, q, r) \<longrightarrow> length r < length s)"

definition local_to :: "(cp \<Rightarrow> bool) \<Rightarrow> item list \<Rightarrow> cp option \<Rightarrow> str \<Rightarrow> str \<Rightarrow> bool" where
  "local_to U pat p pre tail \<longleftrightarrow>
     (\<forall>a c b. pre = a @ c # b \<longrightarrow>
        rx_match U pat (before p a) (c # b @ tail) =
        map_option (\<lambda>(g, q, r). (g, q, r @ tail)) (rx_match U pat (before p a) (c # b)))"

text \<open>The items that can take the character \<open>z\<close>.\<close>

fun accepts :: "(cp \<Rightarrow> bool) \<Rightarrow> cp \<Rightarrow> item \<Rightarrow> bool" where
  "accepts U z (Chr c) = (c = z)"
| "accepts U z (Set A) = A z"
| "accepts U z (Plus A) = A z"
| "accepts U z (Cap A) = A z"
| "accepts U z WordB = is_word U z"

abbreviation extend :: "str \<Rightarrow> (str list \<times> cp option \<times> str) option \<Rightarrow> (str list \<times> cp option \<times> str) option" where
  "extend tail \<equiv> map_option (\<lambda>(g, q, r). (g, q, r @ tail))"

text \<open>
  \<open>occurrence U prop p s\<close>: the text \<open>s\<close>, behind the character \<open>p\<close>, starts with an
  occurrence of \<open>prop\<close> as the fifth pass looks for it: \<open>prop\<close> at a word boundary, a
  whitespace character, a hyphen, a whitespace character and at least one letter or hyphen.
  The result is the longest run of letters and hyphens at that place and the text behind it.
  \<open>stands U prop p s n\<close>: the scan of the pass of \<open>prop\<close> over \<open>s\<close> comes to stand at
  position \<open>n\<close>, that is, no occurrence that it rewrites starts before \<open>n\<close> and ends behind
  \<open>n\<close>. \<open>somewhere U prop p s\<close>: an occurrence of \<open>prop\<close> starts at some position of \<open>s\<close>.
\<close>

definition occurrence :: "(cp \<Rightarrow> bool) \<Rightarrow> str \<Rightarrow> cp option \<Rightarrow> str \<Rightarrow> (str \<times> str) option" where
  "occurrence U prop p s =
     (if at_boundary U p s \<and> prefix prop s then
        (case drop (length prop) s of
           a # h # b # r \<Rightarrow>
             if is_space a \<and> h = 45 \<and> is_space b \<and> takeWhile is_letter_hyphen r \<noteq> [] then
               Some (takeWhile is_letter_hyphen r, dropWhile is_letter_hyphen r)
             else None
         | _ \<Rightarrow> None)
      else None)"

fun stands :: "(cp \<Rightarrow> bool) \<Rightarrow> str \<Rightarrow> cp option \<Rightarrow> str \<Rightarrow> nat \<Rightarrow> bool" where
  "stands U prop p s 0 = True"
| "stands U prop p [] (Suc n) = False"
| "stands U prop p (c # s) (Suc n) =
     (case occurrence U prop p (c # s) of
        None \<Rightarrow> stands U prop (Some c) s n
      | Some (w, r) \<Rightarrow>
          if length r < length (c # s) \<and> length (c # s) - length r \<le> Suc n
          then stands U prop (Some (last w)) r (Suc n - (length (c # s) - length r))
          else False)"

fun somewhere :: "(cp \<Rightarrow> bool) \<Rightarrow> str \<Rightarrow> cp option \<Rightarrow> str \<Rightarrow> bool" where
  "somewhere U prop p [] = False"
| "somewhere U prop p (c # s) = (occurrence U prop p (c # s) \<noteq> None \<or> somewhere U prop (Some c) s)"

text \<open>
  \<open>occurs old s\<close>: the literal \<open>old\<close> occurs in \<open>s\<close>. \<open>no_suffix_prefix a b\<close>: no
  suffix of \<open>a\<close> but the empty one starts \<open>b\<close>. A literal is unbordered when two of its
  occurrences cannot overlap; a literal and a text are apart when no occurrence of the
  literal can overlap an occurrence of the text.
\<close>

fun occurs :: "str \<Rightarrow> str \<Rightarrow> bool" where
  "occurs old [] = (old = [])"
| "occurs old (c # s) = (prefix old (c # s) \<or> occurs old s)"

fun no_suffix_prefix :: "str \<Rightarrow> str \<Rightarrow> bool" where
  "no_suffix_prefix [] b = True"
| "no_suffix_prefix (c # s) b = (\<not> prefix (c # s) b \<and> no_suffix_prefix s b)"

definition unbordered :: "str \<Rightarrow> bool" where
  "unbordered old \<longleftrightarrow> old \<noteq> [] \<and> no_suffix_prefix (tl old) old"

definition apart :: "str \<Rightarrow> str \<Rightarrow> bool" where
  "apart old t \<longleftrightarrow>
     old \<noteq> [] \<and> no_suffix_prefix old t \<and> no_suffix_prefix t old \<and> \<not> occurs t old \<and> \<not> occurs old t"

definition clear_of :: "str \<Rightarrow> str \<Rightarrow> str \<Rightarrow> bool" where
  "clear_of old pre tail \<longleftrightarrow>
     (\<forall>a c b. pre = a @ c # b \<longrightarrow> prefix old (c # b @ tail) = prefix old (c # b))"

text \<open>
  Text, a character before a text and a replacement template that hold ASCII characters
  only.
\<close>

definition is_ascii :: "str \<Rightarrow> bool" where
  "is_ascii s \<longleftrightarrow> (\<forall>c\<in>set s. c < 128)"

definition ascii_before :: "cp option \<Rightarrow> bool" where
  "ascii_before p \<longleftrightarrow> (case p of None \<Rightarrow> True | Some a \<Rightarrow> a < 128)"


section \<open>Evaluation\<close>

lemmas class_defs =
  is_space_def is_letter_def is_alnum_def is_alnum_hyphen_def is_letter_hyphen_def is_word_def
  at_boundary_def

lemmas pass_defs =
  fix_closing_tags_def closing_tag_def fix_opening_tags_def opening_tag_def
  fix_attr_hyphens_def attr_hyphen_def fix_attr_equals_def attr_equals_def
  fix_css_prop_def css_prop_def re_sub_def

lemmas table_defs =
  fix_css_props_def known_css_props_def fix_selectors_def selector_fixes_def
  fix_prose_def prose_fixes_def replace_all_def prefix_loop_def prefixes_def

section \<open>The matcher\<close>

lemma before_simps [simp]:
  "before p [] = p" "before p (s @ [c]) = Some c" "before p (c # s) = before (Some c) s"
  by (auto simp: before_def)

lemma before_append: "before p (a @ b) = before (before p a) b"
  by (auto simp: before_def)

lemma rx_match_rest:
  "rx_match U pat p s = Some (g, q, rest) \<Longrightarrow> \<exists>a. s = a @ rest \<and> q = before p a"
  "rx_repeat U cap pat s n = Some (g, q, rest) \<Longrightarrow> n \<le> length s \<Longrightarrow>
     \<exists>a. s = a @ rest \<and> a \<noteq> [] \<and> q = Some (last a)"
proof (induction U pat p s and U cap pat s n arbitrary: g q rest and g q rest
    rule: rx_match_rx_repeat.induct)
  case (3 U c r p x t)
  then show ?case by (fastforce split: if_splits)
next
  case (5 U A r p x t)
  then show ?case by (fastforce split: if_splits)
next
  case (6 U A r p s)
  from 6(1)[of g q rest] 6(2) show ?case
    by (auto simp: length_takeWhile_le before_def)
next
  case (7 U A r p s)
  from 7(1)[of g q rest] 7(2) show ?case
    by (auto simp: length_takeWhile_le before_def)
next
  case (8 U r p s)
  then show ?case by (auto split: if_splits)
next
  case (10 U cap r s n)
  show ?case
  proof (cases "rx_match U r (Some (s ! n)) (drop (Suc n) s)")
    case None
    with 10 show ?thesis by auto
  next
    case (Some res)
    obtain g1 p1 t1 where res: "res = (g1, p1, t1)" by (cases res)
    from 10(1)[OF Some[unfolded res]] obtain a
      where a: "drop (Suc n) s = a @ t1" "p1 = before (Some (s ! n)) a" by blast
    from "10.prems" Some res have r: "rest = t1" "q = p1" by auto
    have s: "s = (take (Suc n) s @ a) @ rest"
      using a(1) r(1) by (metis append.assoc append_take_drop_id)
    have ne: "take (Suc n) s \<noteq> []" using "10.prems"(2) by auto
    have "last (take (Suc n) s) = s ! n"
      using "10.prems"(2) by (simp add: take_Suc_conv_app_nth)
    then have "q = Some (last (take (Suc n) s @ a))"
      using a(2) r(2) ne by (auto simp: before_def)
    with s ne show ?thesis by blast
  qed
qed auto

lemma rx_repeat_rejected:
  assumes rej: "\<And>p c t. A c \<Longrightarrow> rx_match U r p (c # t) = None"
  shows "n < length (takeWhile A s) \<Longrightarrow> rx_repeat U cap r s n = None"
proof (induction n)
  case 0
  show ?case by simp
next
  case (Suc n)
  have lt: "Suc n < length s"
    using Suc.prems length_takeWhile_le [of A s] by simp
  have "A (s ! Suc n)"
    using Suc.prems by (metis nth_mem set_takeWhileD takeWhile_nth)
  then have "rx_match U r (Some (s ! n)) (drop (Suc n) s) = None"
    using rej lt by (metis Cons_nth_drop_Suc)
  with Suc show ?case by simp
qed

lemma rx_repeat_greedy:
  assumes "r = [] \<or> (\<forall>p c t. A c \<longrightarrow> rx_match U r p (c # t) = None)"
  shows "rx_repeat U cap r s (length (takeWhile A s)) =
    (if takeWhile A s = [] then None
     else map_option (\<lambda>(g, q, t). (if cap then takeWhile A s # g else g, q, t))
            (rx_match U r (Some (last (takeWhile A s))) (dropWhile A s)))"
proof (cases "length (takeWhile A s)")
  case 0
  then show ?thesis by simp
next
  case (Suc n)
  then have ne: "takeWhile A s \<noteq> []" by auto
  have tk: "take (Suc n) s = takeWhile A s"
    using Suc by (metis takeWhile_eq_take)
  have dr: "drop (Suc n) s = dropWhile A s"
    using Suc by (metis dropWhile_eq_drop)
  have la: "s ! n = last (takeWhile A s)"
    using Suc ne by (simp add: last_conv_nth takeWhile_nth)
  show ?thesis
  proof (cases "rx_match U r (Some (s ! n)) (drop (Suc n) s)")
    case None
    then have "r \<noteq> []" by auto
    with assms have "\<And>p c t. A c \<Longrightarrow> rx_match U r p (c # t) = None" by blast
    then have "rx_repeat U cap r s n = None"
      using rx_repeat_rejected [of A U r n s cap] Suc by simp
    with None show ?thesis using Suc ne la dr by simp
  next
    case (Some res)
    then show ?thesis using Suc ne la dr tk by (cases res) simp
  qed
qed

lemma rx_match_Plus:
  assumes "r = [] \<or> (\<forall>p c t. A c \<longrightarrow> rx_match U r p (c # t) = None)"
  shows "rx_match U (Plus A # r) p s =
    (if takeWhile A s = [] then None
     else rx_match U r (Some (last (takeWhile A s))) (dropWhile A s))"
  using rx_repeat_greedy [OF assms, of False s]
  by (auto simp: option.map_ident split_def)

lemma rx_match_Cap:
  assumes "r = [] \<or> (\<forall>p c t. A c \<longrightarrow> rx_match U r p (c # t) = None)"
  shows "rx_match U (Cap A # r) p s =
    (if takeWhile A s = [] then None
     else map_option (\<lambda>(g, q, t). (takeWhile A s # g, q, t))
            (rx_match U r (Some (last (takeWhile A s))) (dropWhile A s)))"
  using rx_repeat_greedy [OF assms, of True s] by simp

lemma rejects_Chr: "\<not> A c \<Longrightarrow> \<forall>p x t. A x \<longrightarrow> rx_match U (Chr c # r) p (x # t) = None"
  by auto

lemma rejects_Set: "(\<And>x. A x \<Longrightarrow> \<not> B x) \<Longrightarrow> \<forall>p x t. A x \<longrightarrow> rx_match U (Set B # r) p (x # t) = None"
  by auto

lemma rejects_Cap: "(\<And>x. A x \<Longrightarrow> \<not> B x) \<Longrightarrow> \<forall>p x t. A x \<longrightarrow> rx_match U (Cap B # r) p (x # t) = None"
  by auto

lemma space_not_alnum: "is_space c \<Longrightarrow> \<not> is_alnum c"
  by (auto simp: is_space_def is_alnum_def is_letter_def)

lemma space_not_alnum_hyphen: "is_space c \<Longrightarrow> \<not> is_alnum_hyphen c"
  by (auto simp: is_space_def is_alnum_hyphen_def is_alnum_def is_letter_def)

lemma rx_match_lit:
  "rx_match U (map Chr l @ r) p s =
     (if prefix l s then rx_match U r (before p l) (drop (length l) s) else None)"
proof (induction l arbitrary: p s)
  case Nil
  show ?case by simp
next
  case (Cons c l)
  show ?case by (cases s) (auto simp: Cons)
qed

lemma closing_tag_match:
  "rx_match U closing_tag p s =
     (case s of
        a # b # t \<Rightarrow>
          if a = 60 \<and> b = 47 \<and> takeWhile is_space t \<noteq> [] \<and>
             takeWhile is_alnum (dropWhile is_space t) \<noteq> []
          then (case dropWhile is_alnum (dropWhile is_space t) of
                  e # rest \<Rightarrow>
                    if e = 62 then Some ([takeWhile is_alnum (dropWhile is_space t)], Some 62, rest)
                    else None
                | [] \<Rightarrow> None)
          else None
      | _ \<Rightarrow> None)"
proof -
  have cap: "rx_match U [Cap is_alnum, Chr 62] q u =
      (if takeWhile is_alnum u = [] then None
       else map_option (\<lambda>(g, q, t). (takeWhile is_alnum u # g, q, t))
              (rx_match U [Chr 62] (Some (last (takeWhile is_alnum u))) (dropWhile is_alnum u)))"
    for q u
    by (rule rx_match_Cap) (simp add: is_alnum_def is_letter_def)
  have plus: "rx_match U [Plus is_space, Cap is_alnum, Chr 62] q t =
      (if takeWhile is_space t = [] then None
       else rx_match U [Cap is_alnum, Chr 62] (Some (last (takeWhile is_space t)))
              (dropWhile is_space t))"
    for q t
    by (rule rx_match_Plus) (simp add: space_not_alnum)
  show ?thesis
    by (simp add: closing_tag_def plus cap del: rx_match.simps(6,7) dropWhile_eq_Nil_conv split: list.splits)
qed

section \<open>The scan of a substitution\<close>

lemma local_to_Cons: "local_to U pat p (c # b) tail \<Longrightarrow> local_to U pat (Some c) b tail"
  unfolding local_to_def
proof (intro allI impI)
  fix a c' b'
  assume h: "\<forall>a ca ba. c # b = a @ ca # ba \<longrightarrow>
        rx_match U pat (before p a) (ca # ba @ tail) =
        map_option (\<lambda>(g, q, r). (g, q, r @ tail)) (rx_match U pat (before p a) (ca # ba))"
    and b: "b = a @ c' # b'"
  from b have "c # b = (c # a) @ c' # b'" by simp
  from h[rule_format, OF this] show "rx_match U pat (before (Some c) a) (c' # b' @ tail) =
        map_option (\<lambda>(g, q, r). (g, q, r @ tail)) (rx_match U pat (before (Some c) a) (c' # b'))"
    by simp
qed

lemma local_to_append: "local_to U pat p (a @ r) tail \<Longrightarrow> local_to U pat (before p a) r tail"
  unfolding local_to_def
proof (intro allI impI)
  fix a' c' b'
  assume h: "\<forall>aa c b. a @ r = aa @ c # b \<longrightarrow>
        rx_match U pat (before p aa) (c # b @ tail) =
        map_option (\<lambda>(g, q, r). (g, q, r @ tail)) (rx_match U pat (before p aa) (c # b))"
    and b: "r = a' @ c' # b'"
  from b have "a @ r = (a @ a') @ c' # b'" by simp
  from h[rule_format, OF this] show "rx_match U pat (before (before p a) a') (c' # b' @ tail) =
        map_option (\<lambda>(g, q, r). (g, q, r @ tail)) (rx_match U pat (before (before p a) a') (c' # b'))"
    by (simp add: before_append)
qed

lemma consuming_Nil: "consuming U pat \<Longrightarrow> rx_match U pat p [] = None"
proof (rule ccontr)
  assume con: "consuming U pat" and "rx_match U pat p [] \<noteq> None"
  then obtain g q r where "rx_match U pat p [] = Some (g, q, r)" by auto
  with con have "length r < length ([] :: str)" unfolding consuming_def by blast
  then show False by simp
qed

lemma sub_Nil: "consuming U pat \<Longrightarrow> sub U pat rep p [] = []"
  by (simp add: consuming_Nil)

lemma consuming_Chr: "consuming U (Chr c # pat)"
  unfolding consuming_def
proof (intro allI impI)
  fix p s g q r
  assume m: "rx_match U (Chr c # pat) p s = Some (g, q, r)"
  then obtain x t where s: "s = x # t" by (cases s) auto
  with m have "rx_match U pat (Some x) t = Some (g, q, r)" by (auto split: if_splits)
  from rx_match_rest(1) [OF this] s show "length r < length s" by auto
qed

lemma consuming_Set: "consuming U (Set A # pat)"
  unfolding consuming_def
proof (intro allI impI)
  fix p s g q r
  assume m: "rx_match U (Set A # pat) p s = Some (g, q, r)"
  then obtain x t where s: "s = x # t" by (cases s) auto
  with m have "rx_match U pat (Some x) t = Some (g, q, r)" by (auto split: if_splits)
  from rx_match_rest(1) [OF this] s show "length r < length s" by auto
qed

lemma consuming_Cap: "consuming U (Cap A # pat)"
  unfolding consuming_def
proof (intro allI impI)
  fix p s g q r
  assume "rx_match U (Cap A # pat) p s = Some (g, q, r)"
  then have "rx_repeat U True pat s (length (takeWhile A s)) = Some (g, q, r)" by simp
  from rx_match_rest(2) [OF this length_takeWhile_le] show "length r < length s" by auto
qed

lemma consuming_WordB: "consuming U pat \<Longrightarrow> consuming U (WordB # pat)"
  unfolding consuming_def by (auto split: if_splits)

lemma sub_append:
  assumes con: "consuming U pat"
  shows "local_to U pat p pre tail \<Longrightarrow>
    sub U pat rep p (pre @ tail) = sub U pat rep p pre @ sub U pat rep (before p pre) tail"
proof (induction "length pre" arbitrary: pre p rule: less_induct)
  case less
  show ?case
  proof (cases pre)
    case Nil
    then show ?thesis by (simp add: sub_Nil [OF con] del: sub.simps)
  next
    case (Cons c b)
    from less.prems Cons
    have here: "rx_match U pat p (c # b @ tail) =
        map_option (\<lambda>(g, q, r). (g, q, r @ tail)) (rx_match U pat p (c # b))"
      unfolding local_to_def by (metis append_Nil before_simps(1))
    show ?thesis
    proof (cases "rx_match U pat p (c # b)")
      case None
      have "local_to U pat (Some c) b tail"
        using less.prems Cons local_to_Cons by blast
      from less.hyps [OF _ this] Cons
      have "sub U pat rep (Some c) (b @ tail) =
          sub U pat rep (Some c) b @ sub U pat rep (before (Some c) b) tail" by simp
      with None here Cons show ?thesis by simp
    next
      case (Some res)
      obtain g q r where res: "res = (g, q, r)" by (cases res)
      from rx_match_rest(1) [OF Some [unfolded res]] obtain a
        where a: "c # b = a @ r" "q = before p a" by blast
      from con Some res have len: "length r < length (c # b)"
        unfolding consuming_def by blast
      have "local_to U pat (before p a) r tail"
        using less.prems Cons a(1) local_to_append by metis
      from less.hyps [OF _ this] len Cons a(2)
      have ih: "sub U pat rep q (r @ tail) = sub U pat rep q r @ sub U pat rep (before q r) tail"
        by simp
      have bq: "before q r = before p pre"
        using a Cons by (metis before_append)
      from len have len': "length (r @ tail) < length (c # b @ tail)" by simp
      have "sub U pat rep p (c # b @ tail) = expand rep g @ sub U pat rep q (r @ tail)"
        using here Some res len' by simp
      moreover have "sub U pat rep p (c # b) = expand rep g @ sub U pat rep q r"
        using Some res len by simp
      ultimately show ?thesis using ih bq Cons by simp
    qed
  qed
qed

text \<open>
  Every pattern of the script takes at least one character, so that the branch of \<open>sub\<close>
  for a match of no character is never taken.
\<close>

lemma script_patterns_consuming:
  "consuming U closing_tag" "consuming U opening_tag" "consuming U attr_hyphen"
  "consuming U attr_equals"
  by (simp_all add: closing_tag_def opening_tag_def attr_hyphen_def attr_equals_def
      consuming_Chr consuming_Cap consuming_WordB)

lemma sub_prev:
  "rx_match U pat p s = rx_match U pat q s \<Longrightarrow> sub U pat rep p s = sub U pat rep q s"
  by (cases s) simp_all

lemma closing_tag_consuming: "consuming U closing_tag"
  by (simp add: closing_tag_def consuming_Chr)

lemma takeWhile_stop: "\<not> A z \<Longrightarrow> takeWhile A (s @ z # t) = takeWhile A s"
  by (induction s) simp_all

lemma dropWhile_stop: "\<not> A z \<Longrightarrow> dropWhile A (s @ z # t) = dropWhile A s @ z # t"
  by (induction s) simp_all

lemma rx_match_stop:
  "\<forall>i\<in>set pat. \<not> accepts U z i \<Longrightarrow>
     rx_match U pat p (s @ z # t) = extend (z # t) (rx_match U pat p s)"
  "\<forall>i\<in>set pat. \<not> accepts U z i \<Longrightarrow> n \<le> length s \<Longrightarrow>
     rx_repeat U cap pat (s @ z # t) n = extend (z # t) (rx_repeat U cap pat s n)"
proof (induction U pat p s and U cap pat s n rule: rx_match_rx_repeat.induct)
  case (6 U A r p s)
  then have "takeWhile A (s @ z # t) = takeWhile A s"
    by (simp add: takeWhile_stop)
  with 6 show ?case by (simp add: length_takeWhile_le)
next
  case (7 U A r p s)
  then have "takeWhile A (s @ z # t) = takeWhile A s"
    by (simp add: takeWhile_stop)
  with 7 show ?case by (simp add: length_takeWhile_le)
next
  case (8 U r p s)
  then show ?case by (cases s) (auto simp: at_boundary_def)
next
  case (10 U cap r s n)
  from "10.prems" have n: "Suc n \<le> length s" by simp
  then have eq: "(s @ z # t) ! n = s ! n" "drop (Suc n) (s @ z # t) = drop (Suc n) s @ z # t"
    "take (Suc n) (s @ z # t) = take (Suc n) s"
    by (simp_all add: nth_append)
  have a: "rx_match U r (Some (s ! n)) (drop (Suc n) s @ z # t) =
      extend (z # t) (rx_match U r (Some (s ! n)) (drop (Suc n) s))"
    using "10.IH"(1) "10.prems"(1) by simp
  show ?case
  proof (cases "rx_match U r (Some (s ! n)) (drop (Suc n) s)")
    case None
    with a eq "10.IH"(2) "10.prems" n show ?thesis by simp
  next
    case (Some res)
    with a eq show ?thesis by (cases res) simp
  qed
qed auto

lemma closing_tag_local: "local_to U closing_tag p pre (60 # t)"
  unfolding local_to_def
proof (intro allI impI)
  fix a c b
  have "rx_match U [Chr 47, Plus is_space, Cap is_alnum, Chr 62] q (b @ 60 # t) =
      extend (60 # t) (rx_match U [Chr 47, Plus is_space, Cap is_alnum, Chr 62] q b)" for q
    by (rule rx_match_stop) (simp add: is_space_def is_alnum_def is_letter_def)
  then show "rx_match U closing_tag (before p a) (c # b @ 60 # t) =
      extend (60 # t) (rx_match U closing_tag (before p a) (c # b))"
    by (simp add: closing_tag_def del: rx_match.simps(6,7))
qed

lemma takeWhile_all_stop: "\<forall>x\<in>set s. A x \<Longrightarrow> \<not> A z \<Longrightarrow> takeWhile A (s @ z # t) = s"
  by (simp add: takeWhile_stop)

lemma dropWhile_all_stop: "\<forall>x\<in>set s. A x \<Longrightarrow> \<not> A z \<Longrightarrow> dropWhile A (s @ z # t) = z # t"
  by (simp add: dropWhile_stop)

lemma closing_tag_at:
  assumes "ws \<noteq> []" "\<forall>c\<in>set ws. is_space c" "name \<noteq> []" "\<forall>c\<in>set name. is_alnum c"
  shows "rx_match U closing_tag p (60 # 47 # ws @ name @ 62 # post) = Some ([name], Some 62, post)"
proof -
  obtain n ns where name: "name = n # ns" using assms(3) by (cases name) auto
  with assms(4) have n: "\<not> is_space n" using space_not_alnum by auto
  have 1: "takeWhile is_space (ws @ name @ 62 # post) = ws"
    using takeWhile_all_stop [OF assms(2) n] name by simp
  have 2: "dropWhile is_space (ws @ name @ 62 # post) = name @ 62 # post"
    using dropWhile_all_stop [OF assms(2) n] name by simp
  have a: "\<not> is_alnum 62" by (simp add: is_alnum_def is_letter_def)
  have 3: "takeWhile is_alnum (name @ 62 # post) = name"
    by (rule takeWhile_all_stop [OF assms(4) a])
  have 4: "dropWhile is_alnum (name @ 62 # post) = 62 # post"
    by (rule dropWhile_all_stop [OF assms(4) a])
  show ?thesis
    using assms(1,3) by (simp add: closing_tag_match 1 2 3 4)
qed

lemma closing_tag_prev: "rx_match U closing_tag p s = rx_match U closing_tag q s"
  by (simp add: closing_tag_match)

lemma closing_tags_split:
  assumes "ws \<noteq> []" "\<forall>c\<in>set ws. is_space c" "name \<noteq> []" "\<forall>c\<in>set name. is_alnum c"
  shows "fix_closing_tags U (pre @ cps ''</'' @ ws @ name @ cps ''>'' @ post)
       = fix_closing_tags U pre @ cps ''</'' @ name @ cps ''>'' @ fix_closing_tags U post"
proof -
  let ?rep = "[Txt (cps ''</''), Ref 1, Txt (cps ''>'')]"
  let ?occ = "60 # 47 # ws @ name @ 62 # post"
  have "sub U closing_tag ?rep None (pre @ ?occ) =
      sub U closing_tag ?rep None pre @ sub U closing_tag ?rep (before None pre) ?occ"
    by (rule sub_append [OF closing_tag_consuming closing_tag_local])
  moreover have "sub U closing_tag ?rep (before None pre) ?occ =
      cps ''</'' @ name @ cps ''>'' @ sub U closing_tag ?rep (Some 62) post"
    using closing_tag_at [OF assms, of U "before None pre" post] by simp
  moreover have "sub U closing_tag ?rep (Some 62) post = sub U closing_tag ?rep None post"
    by (rule sub_prev) (rule closing_tag_prev)
  ultimately show ?thesis
    by (simp add: fix_closing_tags_def re_sub_def)
qed

section \<open>The pattern of the hyphenated attributes\<close>

lemma alnum_facts: "is_alnum x \<Longrightarrow> \<not> is_space x \<and> x \<noteq> 45 \<and> x \<noteq> 61 \<and> x < 128"
  by (auto simp: is_alnum_def is_letter_def is_space_def)

lemma space_facts: "is_space x \<Longrightarrow> \<not> is_alnum x \<and> x \<noteq> 45 \<and> x \<noteq> 61 \<and> \<not> is_letter_hyphen x"
  by (auto simp: is_alnum_def is_letter_def is_space_def is_letter_hyphen_def)

lemma attr_hyphen_match:
  "rx_match U attr_hyphen p s =
     (if at_boundary U p s \<and> takeWhile is_alnum s \<noteq> [] then
        (case dropWhile is_alnum s of
           a # h # b # r2 \<Rightarrow>
             if is_space a \<and> h = 45 \<and> is_space b \<and> takeWhile is_alnum r2 \<noteq> [] then
               (case dropWhile is_alnum r2 of
                  e # r4 \<Rightarrow>
                    if e = 61 then Some ([takeWhile is_alnum s, takeWhile is_alnum r2], Some 61, r4)
                    else None
                | [] \<Rightarrow> None)
             else None
         | _ \<Rightarrow> None)
      else None)"
proof -
  have cap2: "rx_match U [Cap is_alnum, Chr 61] q u =
      (if takeWhile is_alnum u = [] then None
       else map_option (\<lambda>(g, q, t). (takeWhile is_alnum u # g, q, t))
              (rx_match U [Chr 61] (Some (last (takeWhile is_alnum u))) (dropWhile is_alnum u)))"
    for q u
    by (rule rx_match_Cap) (simp add: is_alnum_def is_letter_def)
  have cap1: "rx_match U (Cap is_alnum # Set is_space # r) q u =
      (if takeWhile is_alnum u = [] then None
       else map_option (\<lambda>(g, q, t). (takeWhile is_alnum u # g, q, t))
              (rx_match U (Set is_space # r) (Some (last (takeWhile is_alnum u))) (dropWhile is_alnum u)))"
    for q u r
    by (rule rx_match_Cap) (auto dest: space_not_alnum)
  show ?thesis
    by (simp add: attr_hyphen_def cap1 cap2 del: rx_match.simps(6,7) dropWhile_eq_Nil_conv
        split: list.splits)
qed

lemma attr_hyphen_consuming: "consuming U attr_hyphen"
  by (simp add: attr_hyphen_def consuming_WordB consuming_Cap)

lemma dropWhile_keeps_last:
  assumes "s \<noteq> []" "\<not> P (last s)"
  shows "dropWhile P s \<noteq> []" "last (dropWhile P s) = last s"
  using assms dropWhile_last [of "last s" s P] last_in_set [of s]
  by (auto simp del: dropWhile_eq_Nil_conv simp: dropWhile_eq_Nil_conv)

lemma attr_hyphen_local:
  assumes last: "pre \<noteq> [] \<longrightarrow> \<not> is_alnum (last pre)"
    and w1: "w1 \<noteq> []" "\<forall>c\<in>set w1. is_alnum c" and s1: "is_space s1"
  shows "local_to U attr_hyphen p pre (w1 @ s1 # rest)"
  unfolding local_to_def
proof (intro allI impI)
  fix a c b
  assume pre: "pre = a @ c # b"
  define t where "t = w1 @ s1 # rest"
  define d where "d = dropWhile is_alnum (c # b)"
  define q where "q = before p a"
  have ls: "\<not> is_alnum (last (c # b))" using last pre by simp
  obtain x w1' where w1c: "w1 = x # w1'" using w1(1) by (cases w1) auto
  then have x: "\<not> is_space x" "x \<noteq> 45" using w1(2) alnum_facts by auto
  have s1': "\<not> is_alnum s1" "s1 \<noteq> 61" using s1 space_facts by auto
  have tw: "takeWhile is_alnum (c # b @ t) = takeWhile is_alnum (c # b)"
    using takeWhile_append1 [of "last (c # b)" "c # b" is_alnum t] ls by simp
  have dw: "dropWhile is_alnum (c # b @ t) = d @ t"
    using dropWhile_append1 [of "last (c # b)" "c # b" is_alnum t] ls by (simp add: d_def)
  have d: "d \<noteq> []" "\<not> is_alnum (last d)"
    using dropWhile_keeps_last [of "c # b" is_alnum] ls by (simp_all add: d_def)
  have tt: "takeWhile is_alnum t = w1" "dropWhile is_alnum t = s1 # rest"
    using takeWhile_all_stop [OF w1(2) s1'(1)] dropWhile_all_stop [OF w1(2) s1'(1)]
    by (simp_all add: t_def)
  have bd: "at_boundary U q (c # b @ t) = at_boundary U q (c # b)"
    by (simp add: at_boundary_def)
  have inner: "(case d @ t of
           a # h # b # r2 \<Rightarrow>
             if is_space a \<and> h = 45 \<and> is_space b \<and> takeWhile is_alnum r2 \<noteq> [] then
               (case dropWhile is_alnum r2 of
                  e # r4 \<Rightarrow>
                    if e = 61 then Some ([w, takeWhile is_alnum r2], Some 61, r4)
                    else None
                | [] \<Rightarrow> None)
             else None
         | _ \<Rightarrow> None) = extend t (case d of
           a # h # b # r2 \<Rightarrow>
             if is_space a \<and> h = 45 \<and> is_space b \<and> takeWhile is_alnum r2 \<noteq> [] then
               (case dropWhile is_alnum r2 of
                  e # r4 \<Rightarrow>
                    if e = 61 then Some ([w, takeWhile is_alnum r2], Some 61, r4)
                    else None
                | [] \<Rightarrow> None)
             else None
         | _ \<Rightarrow> None)" for w
  proof -
    consider a1 where "d = [a1]" | a1 h1 where "d = [a1, h1]" | a1 h1 b1 where "d = [a1, h1, b1]"
      | a1 h1 b1 r2 where "d = a1 # h1 # b1 # r2" "r2 \<noteq> []"
      using d(1) by (cases d rule: list.exhaust; metis list.exhaust)
    then show ?thesis
    proof cases
      case 1
      then show ?thesis using x by (simp add: t_def w1c split: list.splits)
    next
      case 2
      then show ?thesis using x by (simp add: t_def w1c)
    next
      case 3
      then show ?thesis using tt s1' w1(1) by simp
    next
      case 4
      then have l: "\<not> is_alnum (last r2)" using d(2) by simp
      have "takeWhile is_alnum (r2 @ t) = takeWhile is_alnum r2"
        using takeWhile_append1 [of "last r2" r2 is_alnum t] l 4(2) by simp
      moreover have "dropWhile is_alnum (r2 @ t) = dropWhile is_alnum r2 @ t"
        using dropWhile_append1 [of "last r2" r2 is_alnum t] l 4(2) by simp
      moreover have "dropWhile is_alnum r2 \<noteq> []"
        using dropWhile_keeps_last(1) [of r2 is_alnum] 4(2) l by blast
      ultimately show ?thesis using 4(1)
        by (cases "dropWhile is_alnum r2") (simp_all del: dropWhile_eq_Nil_conv)
    qed
  qed
  have "rx_match U attr_hyphen q (c # b @ t) = extend t (rx_match U attr_hyphen q (c # b))"
    by (simp only: attr_hyphen_match tw dw bd d_def [symmetric] inner) simp
  then show "rx_match U attr_hyphen (before p a) (c # b @ w1 @ s1 # rest) =
      extend (w1 @ s1 # rest) (rx_match U attr_hyphen (before p a) (c # b))"
    by (simp only: t_def q_def)
qed

lemma alnum_word: "is_alnum c \<Longrightarrow> is_word U c"
  using alnum_facts [of c] by (simp add: is_word_def)

lemma attr_hyphen_at:
  assumes q: "\<not> (case q of None \<Rightarrow> False | Some a \<Rightarrow> is_word U a)"
    and w1: "w1 \<noteq> []" "\<forall>c\<in>set w1. is_alnum c"
    and sp: "is_space s1" "is_space s2"
    and w2: "w2 \<noteq> []" "\<forall>c\<in>set w2. is_alnum c"
  shows "rx_match U attr_hyphen q (w1 @ s1 # 45 # s2 # w2 @ 61 # post) = Some ([w1, w2], Some 61, post)"
proof -
  obtain x xs where w1c: "w1 = x # xs" using w1(1) by (cases w1) auto
  then have "is_word U x" using w1(2) alnum_word by simp
  then have bd: "at_boundary U q (w1 @ s1 # 45 # s2 # w2 @ 61 # post)"
    using q by (simp add: at_boundary_def w1c)
  have n1: "\<not> is_alnum s1" using sp(1) space_facts by blast
  have n2: "\<not> is_alnum 61" by (simp add: is_alnum_def is_letter_def)
  have 1: "takeWhile is_alnum (w1 @ s1 # 45 # s2 # w2 @ 61 # post) = w1"
    by (rule takeWhile_all_stop [OF w1(2) n1])
  have 2: "dropWhile is_alnum (w1 @ s1 # 45 # s2 # w2 @ 61 # post) = s1 # 45 # s2 # w2 @ 61 # post"
    by (rule dropWhile_all_stop [OF w1(2) n1])
  have 3: "takeWhile is_alnum (w2 @ 61 # post) = w2"
    by (rule takeWhile_all_stop [OF w2(2) n2])
  have 4: "dropWhile is_alnum (w2 @ 61 # post) = 61 # post"
    by (rule dropWhile_all_stop [OF w2(2) n2])
  show ?thesis
    using bd w1(1) w2(1) sp by (simp add: attr_hyphen_match 1 2 3 4)
qed

lemma attr_hyphen_prev:
  "\<not> is_word U c \<Longrightarrow> rx_match U attr_hyphen (Some c) s = rx_match U attr_hyphen None s"
  by (simp add: attr_hyphen_match at_boundary_def)

lemma attr_hyphens_split:
  assumes pre: "pre = [] \<or> \<not> is_word U (last pre)"
    and w1: "w1 \<noteq> []" "\<forall>c\<in>set w1. is_alnum c"
    and sp: "is_space s1" "is_space s2"
    and w2: "w2 \<noteq> []" "\<forall>c\<in>set w2. is_alnum c"
  shows "fix_attr_hyphens U (pre @ w1 @ [s1] @ cps ''-'' @ [s2] @ w2 @ cps ''='' @ post)
       = fix_attr_hyphens U pre @ w1 @ cps ''-'' @ w2 @ cps ''='' @ fix_attr_hyphens U post"
proof -
  let ?rep = "[Ref 1, Txt (cps ''-''), Ref 2, Txt (cps ''='')]"
  let ?occ = "w1 @ s1 # 45 # s2 # w2 @ 61 # post"
  have l: "pre \<noteq> [] \<longrightarrow> \<not> is_alnum (last pre)"
    using pre alnum_word by blast
  have q: "\<not> (case before None pre of None \<Rightarrow> False | Some a \<Rightarrow> is_word U a)"
    using pre by (auto simp: before_def)
  have "sub U attr_hyphen ?rep None (pre @ ?occ) =
      sub U attr_hyphen ?rep None pre @ sub U attr_hyphen ?rep (before None pre) ?occ"
    by (rule sub_append [OF attr_hyphen_consuming attr_hyphen_local [OF l w1 sp(1)]])
  moreover have "sub U attr_hyphen ?rep (before None pre) ?occ =
      w1 @ cps ''-'' @ w2 @ cps ''='' @ sub U attr_hyphen ?rep (Some 61) post"
    using attr_hyphen_at [OF q w1 sp w2, of post] w1(1) by (cases w1) simp_all
  moreover have "sub U attr_hyphen ?rep (Some 61) post = sub U attr_hyphen ?rep None post"
    by (rule sub_prev, rule attr_hyphen_prev) (simp add: is_word_def is_alnum_def is_letter_def)
  ultimately show ?thesis
    by (simp add: fix_attr_hyphens_def re_sub_def)
qed

section \<open>The patterns of the known properties\<close>

lemma css_prop_match:
  "rx_match U (css_prop prop) p s =
     (if at_boundary U p s \<and> prefix prop s then
        (case drop (length prop) s of
           a # h # b # r \<Rightarrow>
             if is_space a \<and> h = 45 \<and> is_space b \<and> takeWhile is_letter_hyphen r \<noteq> [] then
               Some ([takeWhile is_letter_hyphen r], Some (last (takeWhile is_letter_hyphen r)),
                     dropWhile is_letter_hyphen r)
             else None
         | _ \<Rightarrow> None)
      else None)"
proof -
  have cap: "rx_match U [Cap is_letter_hyphen] q u =
      (if takeWhile is_letter_hyphen u = [] then None
       else map_option (\<lambda>(g, q, t). (takeWhile is_letter_hyphen u # g, q, t))
              (rx_match U [] (Some (last (takeWhile is_letter_hyphen u))) (dropWhile is_letter_hyphen u)))"
    for q u
    by (rule rx_match_Cap) simp
  have "css_prop prop = WordB # (map Chr prop @ [Set is_space, Chr 45, Set is_space, Cap is_letter_hyphen])"
    by (simp add: css_prop_def)
  then show ?thesis
    by (simp add: rx_match_lit cap del: rx_match.simps(6,7) dropWhile_eq_Nil_conv
        split: list.splits)
qed

lemma css_prop_consuming: "consuming U (css_prop prop)"
proof -
  have "consuming U (map Chr prop @ [Set is_space, Chr 45, Set is_space, Cap is_letter_hyphen])"
    by (cases "prop") (simp_all add: consuming_Set consuming_Chr)
  then show ?thesis by (simp add: css_prop_def consuming_WordB)
qed

lemma letter_facts:
  "is_letter x \<Longrightarrow> is_alnum x \<and> is_letter_hyphen x \<and> \<not> is_space x \<and> x \<noteq> 45"
  by (auto simp: is_alnum_def is_letter_def is_space_def is_letter_hyphen_def)

lemma takeWhile_maximal:
  assumes "\<forall>c\<in>set w. A c" "post = [] \<or> \<not> A (hd post)"
  shows "takeWhile A (w @ post) = w" "dropWhile A (w @ post) = post"
  using assms by (cases post; simp add: takeWhile_all_stop dropWhile_all_stop)+

lemma css_prop_at:
  assumes q: "\<not> (case q of None \<Rightarrow> False | Some a \<Rightarrow> is_word U a)"
    and letters: "prop \<noteq> []" "\<forall>c\<in>set prop. is_letter c"
    and sp: "is_space s1" "is_space s2"
    and w: "w \<noteq> []" "\<forall>c\<in>set w. is_letter_hyphen c"
    and post: "post = [] \<or> \<not> is_letter_hyphen (hd post)"
  shows "rx_match U (css_prop prop) q (prop @ s1 # 45 # s2 # w @ post) = Some ([w], Some (last w), post)"
proof -
  obtain x xs where pc: "prop = x # xs" using letters(1) by (cases "prop") auto
  then have "is_word U x" using letters(2) letter_facts alnum_word by simp
  then have bd: "at_boundary U q (prop @ s1 # 45 # s2 # w @ post)"
    using q by (simp add: at_boundary_def pc)
  show ?thesis
    using bd w(1) sp takeWhile_maximal [OF w(2) post] by (simp add: css_prop_match)
qed

lemma css_prop_prev:
  assumes "prop \<noteq> []" "\<forall>c\<in>set prop. is_letter c" "post = [] \<or> \<not> is_letter_hyphen (hd post)"
  shows "rx_match U (css_prop prop) p post = rx_match U (css_prop prop) q post"
proof -
  have "\<not> prefix prop post"
  proof (cases post)
    case Nil
    then show ?thesis using assms(1) by simp
  next
    case (Cons y ys)
    obtain x xs where pc: "prop = x # xs" using assms(1) by (cases "prop") auto
    with assms(2) have "is_letter_hyphen x" using letter_facts by simp
    with assms(3) Cons have "x \<noteq> y" by auto
    then show ?thesis using pc Cons by simp
  qed
  then show ?thesis by (simp add: css_prop_match)
qed

lemma known_css_props_letters:
  "prop \<in> set known_css_props \<Longrightarrow> prop \<noteq> [] \<and> (\<forall>c\<in>set prop. is_letter c)"
  by (auto simp: known_css_props_def is_letter_def)

section \<open>The scan of a known property\<close>

lemma css_prop_occurrence:
  "rx_match U (css_prop prop) p s =
     map_option (\<lambda>(w, r). ([w], Some (last w), r)) (occurrence U prop p s)"
  by (simp add: css_prop_match occurrence_def split: list.splits)

lemma occurrence_rest:
  assumes "occurrence U prop p s = Some (w, r)"
  shows "\<exists>a. s = a @ r \<and> a \<noteq> [] \<and> last a = last w"
proof -
  from assms have m: "rx_match U (css_prop prop) p s = Some ([w], Some (last w), r)"
    by (simp add: css_prop_occurrence)
  from rx_match_rest(1) [OF m] obtain a where a: "s = a @ r" "Some (last w) = before p a" by blast
  from m css_prop_consuming [of U "prop"] have "length r < length s"
    unfolding consuming_def by blast
  with a(1) have "a \<noteq> []" by auto
  with a show ?thesis by (auto simp: before_def)
qed

lemma sub_css_None:
  "occurrence U prop p (c # s) = None \<Longrightarrow>
     sub U (css_prop prop) rep p (c # s) = c # sub U (css_prop prop) rep (Some c) s"
  by (simp add: css_prop_occurrence)

lemma sub_css_Some:
  assumes "occurrence U prop p (c # s) = Some (w, r)"
  shows "sub U (css_prop prop) [Txt prop, Txt (cps ''-''), Ref 1] p (c # s) =
     prop @ cps ''-'' @ w @ sub U (css_prop prop) [Txt prop, Txt (cps ''-''), Ref 1] (Some (last w)) r"
proof -
  from occurrence_rest [OF assms] have "length r < length (c # s)"
    by (metis length_append length_greater_0_conv less_add_same_cancel2 add.commute)
  with assms show ?thesis by (simp add: css_prop_occurrence)
qed

lemma occurrence_local:
  assumes letters: "\<forall>c\<in>set prop. is_letter c"
    and s: "s \<noteq> []" "\<not> is_word U (last s)"
    and x: "is_letter x"
    and closed: "\<not> (at_boundary U p s \<and>
        (\<exists>a1 b1 r. s = prop @ a1 # 45 # b1 # r \<and> is_space a1 \<and> is_space b1 \<and>
           (\<forall>c\<in>set r. is_letter_hyphen c)))"
  shows "occurrence U prop p (s @ x # rest) =
     map_option (\<lambda>(w, r). (w, r @ x # rest)) (occurrence U prop p s)"
proof -
  define t where "t = x # rest"
  define d where "d = drop (length prop) s"
  have lp: "last s \<notin> set prop"
    using letters s(2) letter_facts alnum_word by blast
  have x': "\<not> is_space x" "x \<noteq> 45" using x letter_facts by auto
  have bd: "at_boundary U p (s @ t) = at_boundary U p s"
    using s(1) by (cases s) (simp_all add: at_boundary_def)
  have pf: "prefix prop (s @ t) = prefix prop s"
  proof -
    have False if "prop = s @ us" for us
      using lp that s(1) by (metis last_in_set set_append UnI1)
    then show ?thesis by (auto simp: prefix_append)
  qed
  show ?thesis
  proof (cases "at_boundary U p s \<and> prefix prop s")
    case False
    then show ?thesis using bd pf by (auto simp: occurrence_def t_def [symmetric])
  next
    case True
    then obtain zs where zs: "s = prop @ zs" by (auto simp: prefix_def)
    then have dz: "d = zs" by (simp add: d_def)
    have dd: "drop (length prop) (s @ t) = d @ t"
      unfolding dz zs by simp
    have "d \<noteq> []"
    proof
      assume "d = []"
      with zs dz have "last s \<in> set prop" using s(1) by (metis append_Nil2 last_in_set)
      with lp show False by blast
    qed
    then consider a1 where "d = [a1]" | a1 h1 where "d = [a1, h1]"
      | a1 h1 b1 r where "d = a1 # h1 # b1 # r"
      by (cases d rule: list.exhaust; metis list.exhaust)
    then have inner: "(case d @ t of
           a # h # b # r \<Rightarrow>
             if is_space a \<and> h = 45 \<and> is_space b \<and> takeWhile is_letter_hyphen r \<noteq> [] then
               Some (takeWhile is_letter_hyphen r, dropWhile is_letter_hyphen r)
             else None
         | _ \<Rightarrow> None) = map_option (\<lambda>(w, r). (w, r @ t)) (case d of
           a # h # b # r \<Rightarrow>
             if is_space a \<and> h = 45 \<and> is_space b \<and> takeWhile is_letter_hyphen r \<noteq> [] then
               Some (takeWhile is_letter_hyphen r, dropWhile is_letter_hyphen r)
             else None
         | _ \<Rightarrow> None)"
    proof cases
      case 1
      then show ?thesis using x' by (simp add: t_def split: list.splits)
    next
      case 2
      then show ?thesis using x' by (simp add: t_def)
    next
      case 3
      show ?thesis
      proof (cases "is_space a1 \<and> h1 = 45 \<and> is_space b1")
        case False
        with 3 show ?thesis by auto
      next
        case sp: True
        have "\<not> (\<forall>c\<in>set r. is_letter_hyphen c)"
        proof
          assume "\<forall>c\<in>set r. is_letter_hyphen c"
          moreover have "s = prop @ a1 # 45 # b1 # r"
            using zs dz 3 sp by simp
          ultimately show False using closed True sp by blast
        qed
        then obtain y where y: "y \<in> set r" "\<not> is_letter_hyphen y" by blast
        have "takeWhile is_letter_hyphen (r @ t) = takeWhile is_letter_hyphen r"
          using takeWhile_append1 [of y r is_letter_hyphen t] y by blast
        moreover have "dropWhile is_letter_hyphen (r @ t) = dropWhile is_letter_hyphen r @ t"
          using dropWhile_append1 [of y r is_letter_hyphen t] y by blast
        ultimately show ?thesis using 3 by simp
      qed
    qed
    have "occurrence U prop p (s @ t) = map_option (\<lambda>(w, r). (w, r @ t)) (occurrence U prop p s)"
      using True by (simp only: occurrence_def bd pf dd d_def [symmetric] inner) simp
    then show ?thesis by (simp only: t_def)
  qed
qed

lemma occurrence_at_prop:
  assumes "at_boundary U p (prop @ a1 # 45 # b1 # u)" "is_space a1" "is_space b1"
    "takeWhile is_letter_hyphen u \<noteq> []"
  shows "occurrence U prop p (prop @ a1 # 45 # b1 # u) =
    Some (takeWhile is_letter_hyphen u, dropWhile is_letter_hyphen u)"
  using assms by (simp add: occurrence_def)

lemma at_boundary_head: "s \<noteq> [] \<Longrightarrow> at_boundary U p (s @ t) = at_boundary U p s"
  by (cases s) (simp_all add: at_boundary_def)

lemma occurrence_open:
  assumes bd: "at_boundary U p s"
    and s: "s = prop @ a1 # 45 # b1 # r" "is_space a1" "is_space b1" "\<forall>c\<in>set r. is_letter_hyphen c"
    and letters: "prop \<noteq> []" "\<forall>c\<in>set prop. is_letter c"
  shows "is_space s1 \<Longrightarrow> occurrence U prop p (s @ prop @ s1 # rest) = Some (r @ prop, s1 # rest)"
    and "occurrence U prop p (s @ prop) = Some (r @ prop, [])"
proof -
  have ne: "s \<noteq> []" using s(1) letters(1) by simp
  have all: "\<forall>c\<in>set (r @ prop). is_letter_hyphen c"
    using s(4) letters(2) letter_facts by auto
  have rp: "r @ prop \<noteq> []" using letters(1) by simp
  {
    assume s1: "is_space s1"
    then have n: "\<not> is_letter_hyphen s1" using space_facts by blast
    have tw: "takeWhile is_letter_hyphen ((r @ prop) @ s1 # rest) = r @ prop"
      "dropWhile is_letter_hyphen ((r @ prop) @ s1 # rest) = s1 # rest"
      using takeWhile_all_stop [OF all n] dropWhile_all_stop [OF all n] by blast+
    have e: "s @ prop @ s1 # rest = prop @ a1 # 45 # b1 # ((r @ prop) @ s1 # rest)"
      by (simp add: s(1))
    have "at_boundary U p (s @ prop @ s1 # rest)"
      using bd at_boundary_head [OF ne] by blast
    then have "at_boundary U p (prop @ a1 # 45 # b1 # ((r @ prop) @ s1 # rest))"
      unfolding e .
    from occurrence_at_prop [OF this s(2,3)] rp
    show "occurrence U prop p (s @ prop @ s1 # rest) = Some (r @ prop, s1 # rest)"
      unfolding e tw by blast
  }
  have tw: "takeWhile is_letter_hyphen (r @ prop) = r @ prop"
    "dropWhile is_letter_hyphen (r @ prop) = []"
    using all by simp_all
  have e: "s @ prop = prop @ a1 # 45 # b1 # (r @ prop)"
    by (simp add: s(1))
  have "at_boundary U p (s @ prop)"
    using bd at_boundary_head [OF ne] by blast
  then have "at_boundary U p (prop @ a1 # 45 # b1 # (r @ prop))"
    unfolding e .
  from occurrence_at_prop [OF this s(2,3)] rp
  show "occurrence U prop p (s @ prop) = Some (r @ prop, [])"
    unfolding e tw by blast
qed

lemma occurrence_of_match:
  "rx_match U (css_prop prop) p s = Some ([w], q, r) \<Longrightarrow> occurrence U prop p s = Some (w, r)"
  by (cases "occurrence U prop p s") (auto simp: css_prop_occurrence)

lemma occurrence_needs_prefix: "\<not> prefix prop s \<Longrightarrow> occurrence U prop p s = None"
  by (simp add: occurrence_def)

lemma css_scan:
  assumes letters: "prop \<noteq> []" "\<forall>c\<in>set prop. is_letter c"
    and sp: "is_space s1" "is_space s2"
    and w: "w \<noteq> []" "\<forall>c\<in>set w. is_letter_hyphen c"
    and post: "post = [] \<or> \<not> is_letter_hyphen (hd post)"
  shows "\<not> (case before p pre of None \<Rightarrow> False | Some a \<Rightarrow> is_word U a) \<Longrightarrow>
     (stands U prop p (pre @ prop @ s1 # 45 # s2 # w @ post) (length pre) \<longrightarrow>
        sub U (css_prop prop) [Txt prop, Txt (cps ''-''), Ref 1] p (pre @ prop @ s1 # 45 # s2 # w @ post)
          = sub U (css_prop prop) [Txt prop, Txt (cps ''-''), Ref 1] p pre @ prop @ cps ''-'' @ w
              @ sub U (css_prop prop) [Txt prop, Txt (cps ''-''), Ref 1] None post) \<and>
     (\<not> stands U prop p (pre @ prop @ s1 # 45 # s2 # w @ post) (length pre) \<longrightarrow>
        (\<exists>rest. sub U (css_prop prop) [Txt prop, Txt (cps ''-''), Ref 1] p (pre @ prop @ s1 # 45 # s2 # w @ post)
          = sub U (css_prop prop) [Txt prop, Txt (cps ''-''), Ref 1] p (pre @ prop) @ s1 # 45 # s2 # rest))"
proof (induction "length pre" arbitrary: pre p rule: less_induct)
  case less
  let ?rep = "[Txt prop, Txt (cps ''-''), Ref 1]"
  let ?P = "css_prop prop"
  let ?gap = "s1 # 45 # s2 # w @ post"
  let ?occ = "prop @ ?gap"
  obtain x xs where pc: "prop = x # xs" using letters(1) by (cases "prop") auto
  then have x: "is_letter x" using letters(2) by simp
  show ?case
  proof (cases pre)
    case Nil
    with less.prems have q: "\<not> (case p of None \<Rightarrow> False | Some a \<Rightarrow> is_word U a)" by simp
    have "rx_match U ?P p ?occ = Some ([w], Some (last w), post)"
      by (rule css_prop_at [OF q letters sp w post])
    then have "occurrence U prop p (x # xs @ ?gap) = Some (w, post)"
      using occurrence_of_match pc by simp
    from sub_css_Some [OF this]
    have "sub U ?P ?rep p ?occ = prop @ cps ''-'' @ w @ sub U ?P ?rep (Some (last w)) post"
      by (simp add: pc)
    moreover have "sub U ?P ?rep (Some (last w)) post = sub U ?P ?rep None post"
      by (rule sub_prev) (rule css_prop_prev [OF letters post])
    moreover have "sub U ?P ?rep p [] = []"
      by (rule sub_Nil [OF css_prop_consuming])
    ultimately show ?thesis using Nil by simp
  next
    case (Cons c b)
    with less.prems have lw: "\<not> is_word U (last pre)" by (simp add: before_def)
    have ne: "pre \<noteq> []" using Cons by simp
    show ?thesis
    proof (cases "at_boundary U p pre \<and>
        (\<exists>a1 b1 r. pre = prop @ a1 # 45 # b1 # r \<and> is_space a1 \<and> is_space b1 \<and>
           (\<forall>c\<in>set r. is_letter_hyphen c))")
      case True
      then obtain a1 b1 r where r: "pre = prop @ a1 # 45 # b1 # r" "is_space a1" "is_space b1"
        "\<forall>c\<in>set r. is_letter_hyphen c" and bd: "at_boundary U p pre" by blast
      have o1: "occurrence U prop p (pre @ prop @ s1 # 45 # s2 # w @ post) = Some (r @ prop, ?gap)"
        by (rule occurrence_open(1) [OF bd r letters sp(1)])
      have o2: "occurrence U prop p (pre @ prop) = Some (r @ prop, [])"
        by (rule occurrence_open(2) [OF bd r letters])
      have "\<not> stands U prop p (pre @ ?occ) (length pre)"
        using o1 letters(1) by (simp add: Cons)
      moreover have "sub U ?P ?rep p (pre @ ?occ) =
          prop @ cps ''-'' @ (r @ prop) @ sub U ?P ?rep (Some (last (r @ prop))) ?gap"
        using sub_css_Some [of U "prop" p c "b @ ?occ" "r @ prop" ?gap] o1 by (simp add: Cons)
      moreover have "sub U ?P ?rep p (pre @ prop) =
          prop @ cps ''-'' @ (r @ prop) @ sub U ?P ?rep (Some (last (r @ prop))) []"
        using sub_css_Some [of U "prop" p c "b @ prop" "r @ prop" "[]"] o2 by (simp add: Cons)
      moreover have "sub U ?P ?rep q [] = []" for q
        by (rule sub_Nil [OF css_prop_consuming])
      moreover have "sub U ?P ?rep q ?gap = s1 # 45 # s2 # sub U ?P ?rep (Some s2) (w @ post)" for q
      proof -
        have n: "x \<noteq> s1" "x \<noteq> 45" "x \<noteq> s2"
          using x sp letter_facts by auto
        have o: "occurrence U prop q' (s1 # t) = None" "occurrence U prop q' (45 # t) = None"
          "occurrence U prop q' (s2 # t) = None" for q' t
          using n by (simp_all add: occurrence_needs_prefix pc)
        have "sub U ?P ?rep q ?gap = s1 # sub U ?P ?rep (Some s1) (45 # s2 # w @ post)"
          by (rule sub_css_None) (rule o)
        also have "sub U ?P ?rep (Some s1) (45 # s2 # w @ post) =
            45 # sub U ?P ?rep (Some 45) (s2 # w @ post)"
          by (rule sub_css_None) (rule o)
        also have "sub U ?P ?rep (Some 45) (s2 # w @ post) =
            s2 # sub U ?P ?rep (Some s2) (w @ post)"
          by (rule sub_css_None) (rule o)
        finally show ?thesis .
      qed
      ultimately show ?thesis by simp
    next
      case False
      have l1: "occurrence U prop p (pre @ ?occ) =
          map_option (\<lambda>(w, r). (w, r @ ?occ)) (occurrence U prop p pre)"
        using occurrence_local [OF letters(2) ne lw x False, of "xs @ ?gap"] by (simp add: pc)
      have l2: "occurrence U prop p (pre @ prop) =
          map_option (\<lambda>(w, r). (w, r @ prop)) (occurrence U prop p pre)"
        using occurrence_local [OF letters(2) ne lw x False, of xs] by (simp add: pc)
      have e1: "pre @ ?occ = c # (b @ ?occ)" "pre @ prop = c # (b @ prop)"
        by (simp_all add: Cons)
      show ?thesis
      proof (cases "occurrence U prop p pre")
        case None
        then have n: "occurrence U prop p (c # (b @ ?occ)) = None"
          "occurrence U prop p (c # (b @ prop)) = None" "occurrence U prop p (c # b) = None"
          using l1 l2 None by (simp_all add: Cons)
        have s: "sub U ?P ?rep p (pre @ ?occ) = c # sub U ?P ?rep (Some c) (b @ ?occ)"
          "sub U ?P ?rep p (pre @ prop) = c # sub U ?P ?rep (Some c) (b @ prop)"
          "sub U ?P ?rep p pre = c # sub U ?P ?rep (Some c) b"
          unfolding Cons append_Cons using n by (simp_all only: sub_css_None)
        have st: "stands U prop p (pre @ ?occ) (length pre) = stands U prop (Some c) (b @ ?occ) (length b)"
          unfolding e1 using n(1) by (simp add: Cons)
        have "\<not> (case before (Some c) b of None \<Rightarrow> False | Some a \<Rightarrow> is_word U a)"
          using less.prems Cons by simp
        from less.hyps [OF _ this] Cons s st show ?thesis by simp
      next
        case (Some res)
        obtain w' r' where res: "res = (w', r')" by (cases res)
        from occurrence_rest [OF Some [unfolded res]] obtain a
          where a: "pre = a @ r'" "a \<noteq> []" "last a = last w'" by blast
        have o: "occurrence U prop p (c # (b @ ?occ)) = Some (w', r' @ ?occ)"
          "occurrence U prop p (c # (b @ prop)) = Some (w', r' @ prop)"
          "occurrence U prop p (c # b) = Some (w', r')"
          using l1 l2 Some res by (simp_all add: Cons)
        have s: "sub U ?P ?rep p (pre @ ?occ) = prop @ cps ''-'' @ w' @ sub U ?P ?rep (Some (last w')) (r' @ ?occ)"
          "sub U ?P ?rep p (pre @ prop) = prop @ cps ''-'' @ w' @ sub U ?P ?rep (Some (last w')) (r' @ prop)"
          "sub U ?P ?rep p pre = prop @ cps ''-'' @ w' @ sub U ?P ?rep (Some (last w')) r'"
          unfolding Cons append_Cons using o by (simp_all only: sub_css_Some)
        have len: "length pre = length a + length r'" using a(1) by simp
        then have lb: "Suc (length b) = length a + length r'" using Cons by simp
        have k: "length (c # (b @ ?occ)) - length (r' @ ?occ) = length a"
          and c1: "length (r' @ ?occ) < length (c # (b @ ?occ))"
          and le: "length a \<le> Suc (length b)"
          and d: "Suc (length b) - length a = length r'"
          using lb a(2) by simp_all
        have "stands U prop p (c # (b @ ?occ)) (Suc (length b)) =
            stands U prop (Some (last w')) (r' @ ?occ) (length r')"
          by (simp only: stands.simps o(1) option.case prod.case k c1 le d simp_thms if_True)
        then have st: "stands U prop p (pre @ ?occ) (length pre) = stands U prop (Some (last w')) (r' @ ?occ) (length r')"
          unfolding e1 by (simp add: Cons)
        have lt: "length r' < length pre" using len a(2) by simp
        have "before (Some (last w')) r' = Some (last pre)"
          using a by (cases "r' = []") (simp_all add: before_def)
        then have "\<not> (case before (Some (last w')) r' of None \<Rightarrow> False | Some a \<Rightarrow> is_word U a)"
          using lw by simp
        from less.hyps [OF lt this] s st show ?thesis by simp
      qed
    qed
  qed
qed

lemma sub_css_frame:
  "\<not> somewhere U prop p s \<Longrightarrow> sub U (css_prop prop) rep p s = s"
proof (induction s arbitrary: p)
  case Nil
  show ?case by (rule sub_Nil [OF css_prop_consuming])
next
  case (Cons c s)
  then have "occurrence U prop p (c # s) = None" "\<not> somewhere U prop (Some c) s"
    by (cases "occurrence U prop p (c # s)"; simp)+
  with Cons.IH [of "Some c"] show ?case by (simp add: sub_css_None del: sub.simps)
qed

lemma fix_css_props_frame:
  assumes "\<forall>prop\<in>set known_css_props. \<not> somewhere U prop None s"
  shows "fix_css_props U s = s"
proof -
  have "(\<forall>prop\<in>set ps. \<not> somewhere U prop None s) \<Longrightarrow>
      foldl (\<lambda>content prop. fix_css_prop U prop content) s ps = s" for ps
    by (induction ps) (simp_all add: fix_css_prop_def re_sub_def sub_css_frame)
  with assms show ?thesis by (simp add: fix_css_props_def)
qed

lemma css_prop_scan:
  assumes "prop \<in> set known_css_props"
    and "pre = [] \<or> \<not> is_word U (last pre)"
    and "is_space s1" and "is_space s2"
    and "w \<noteq> []" and "\<forall>c\<in>set w. is_letter_hyphen c"
    and "post = [] \<or> \<not> is_letter_hyphen (hd post)"
  shows "(stands U prop None (pre @ prop @ [s1] @ cps ''-'' @ [s2] @ w @ post) (length pre) \<longrightarrow>
           fix_css_prop U prop (pre @ prop @ [s1] @ cps ''-'' @ [s2] @ w @ post)
             = fix_css_prop U prop pre @ prop @ cps ''-'' @ w @ fix_css_prop U prop post) \<and>
         (\<not> stands U prop None (pre @ prop @ [s1] @ cps ''-'' @ [s2] @ w @ post) (length pre) \<longrightarrow>
           prefix (fix_css_prop U prop (pre @ prop) @ [s1] @ cps ''-'' @ [s2])
             (fix_css_prop U prop (pre @ prop @ [s1] @ cps ''-'' @ [s2] @ w @ post)))"
proof -
  have q: "\<not> (case before None pre of None \<Rightarrow> False | Some a \<Rightarrow> is_word U a)"
    using assms(2) by (auto simp: before_def)
  from css_scan [OF known_css_props_letters [OF assms(1), THEN conjunct1]
      known_css_props_letters [OF assms(1), THEN conjunct2] assms(3-7) q]
  show ?thesis
    by (auto simp: fix_css_prop_def re_sub_def prefix_def)
qed

lemma occurrence_length:
  assumes "occurrence U prop p s = Some (w, r)"
  shows "length s = length prop + 3 + length w + length r"
proof -
  from assms have pf: "prefix prop s"
    by (auto simp: occurrence_def split: if_splits)
  then obtain d where d: "s = prop @ d" by (auto simp: prefix_def)
  from assms d obtain a h b r0 where r0: "d = a # h # b # r0"
    "w = takeWhile is_letter_hyphen r0" "r = dropWhile is_letter_hyphen r0"
    by (auto simp: occurrence_def split: if_splits list.splits)
  have "length r0 = length w + length r"
    unfolding r0(2,3) by (metis length_append takeWhile_dropWhile_id)
  then show ?thesis by (simp add: d r0(1))
qed

lemma sub_css_length:
  "length (sub U (css_prop prop) [Txt prop, Txt (cps ''-''), Ref 1] p s) \<le> length s"
proof (induction "length s" arbitrary: s p rule: less_induct)
  case less
  let ?rep = "[Txt prop, Txt (cps ''-''), Ref 1]"
  show ?case
  proof (cases s)
    case Nil
    have "sub U (css_prop prop) ?rep p [] = []"
      by (rule sub_Nil [OF css_prop_consuming])
    then show ?thesis unfolding Nil by (simp only: list.size)
  next
    case (Cons c t)
    show ?thesis
    proof (cases "occurrence U prop p (c # t)")
      case None
      have "length (sub U (css_prop prop) ?rep (Some c) t) \<le> length t"
        by (rule less) (simp add: Cons)
      then show ?thesis
        unfolding Cons sub_css_None [OF None] by simp
    next
      case (Some res)
      obtain w r where res: "res = (w, r)" by (cases res)
      from occurrence_length [OF Some [unfolded res]]
      have l: "length (c # t) = length prop + 3 + length w + length r" .
      then have "length r < length s" using Cons by simp
      then have "length (sub U (css_prop prop) ?rep (Some (last w)) r) \<le> length r"
        by (rule less)
      then show ?thesis
        unfolding Cons sub_css_Some [OF Some [unfolded res]] l by simp
    qed
  qed
qed

lemma sub_css_shorter:
  "somewhere U prop p s \<Longrightarrow>
     length (sub U (css_prop prop) [Txt prop, Txt (cps ''-''), Ref 1] p s) < length s"
proof (induction s arbitrary: p)
  case Nil
  then show ?case by simp
next
  case (Cons c t)
  show ?case
  proof (cases "occurrence U prop p (c # t)")
    case None
    with Cons.prems have "somewhere U prop (Some c) t" by simp
    from Cons.IH [OF this] show ?thesis
      unfolding sub_css_None [OF None] by simp
  next
    case (Some res)
    obtain w r where res: "res = (w, r)" by (cases res)
    from occurrence_length [OF Some [unfolded res]]
    have l: "length (c # t) = length prop + 3 + length w + length r" .
    from sub_css_length [of U "prop" "Some (last w)" r] show ?thesis
      unfolding sub_css_Some [OF Some [unfolded res]] l by simp
  qed
qed

lemma fix_css_prop_length: "length (fix_css_prop U prop s) \<le> length s"
  unfolding fix_css_prop_def re_sub_def by (rule sub_css_length)

lemma fix_css_prop_unchanged: "fix_css_prop U prop s = s \<longleftrightarrow> \<not> somewhere U prop None s"
proof
  assume "fix_css_prop U prop s = s"
  then have "\<not> length (fix_css_prop U prop s) < length s" by simp
  then show "\<not> somewhere U prop None s"
    using sub_css_shorter [of U "prop" None s] by (auto simp: fix_css_prop_def re_sub_def)
next
  assume "\<not> somewhere U prop None s"
  then show "fix_css_prop U prop s = s"
    by (simp add: fix_css_prop_def re_sub_def sub_css_frame)
qed

lemma foldl_css_length:
  "length (foldl (\<lambda>content prop. fix_css_prop U prop content) s ps) \<le> length s"
proof (induction ps arbitrary: s)
  case Nil
  show ?case by simp
next
  case (Cons pr ps)
  from Cons [of "fix_css_prop U pr s"] fix_css_prop_length [of U pr s]
  show ?case by simp
qed

lemma foldl_css_shorter:
  "\<exists>prop\<in>set ps. somewhere U prop None s \<Longrightarrow>
     length (foldl (\<lambda>content prop. fix_css_prop U prop content) s ps) < length s"
proof (induction ps arbitrary: s)
  case Nil
  then show ?case by simp
next
  case (Cons pr ps)
  show ?case
  proof (cases "somewhere U pr None s")
    case True
    then have "length (fix_css_prop U pr s) < length s"
      using sub_css_shorter [of U pr None s] by (simp add: fix_css_prop_def re_sub_def)
    with foldl_css_length [of U "fix_css_prop U pr s" ps] show ?thesis by simp
  next
    case False
    then have e: "fix_css_prop U pr s = s" by (simp add: fix_css_prop_unchanged)
    from False Cons.prems have "\<exists>prop\<in>set ps. somewhere U prop None s" by simp
    from Cons.IH [OF this] e show ?thesis by simp
  qed
qed

lemma fix_css_props_unchanged:
  "fix_css_props U s = s \<longleftrightarrow> (\<forall>prop\<in>set known_css_props. \<not> somewhere U prop None s)"
proof
  assume e: "fix_css_props U s = s"
  show "\<forall>prop\<in>set known_css_props. \<not> somewhere U prop None s"
  proof (rule ccontr)
    assume "\<not> (\<forall>prop\<in>set known_css_props. \<not> somewhere U prop None s)"
    then have "\<exists>prop\<in>set known_css_props. somewhere U prop None s" by blast
    from foldl_css_shorter [OF this] e show False by (simp add: fix_css_props_def)
  qed
next
  assume "\<forall>prop\<in>set known_css_props. \<not> somewhere U prop None s"
  then show "fix_css_props U s = s" by (rule fix_css_props_frame)
qed

lemma stands_None:
  "occurrence U prop p (c # s) = None \<Longrightarrow>
     stands U prop p (c # s) (Suc n) = stands U prop (Some c) s n"
  by simp

lemma stands_Some:
  assumes "occurrence U prop p (c # s) = Some (w, r)" "c # s = a @ r" "a \<noteq> []"
  shows "stands U prop p (c # s) (Suc n) =
     (length a \<le> Suc n \<and> stands U prop (Some (last w)) r (Suc n - length a))"
proof -
  have k: "length (c # s) - length r = length a" and c1: "length r < length (c # s)"
    unfolding assms(2) using assms(3) by simp_all
  show ?thesis
    by (simp only: stands.simps assms(1) option.case prod.case k c1 simp_thms) (rule if_bool_eq_conj [THEN trans], blast)
qed

lemma not_before_boundary:
  assumes "is_letter x" "\<not> (case p of None \<Rightarrow> False | Some a \<Rightarrow> is_word U a)"
  shows "at_boundary U p (x # t)"
proof -
  have "is_word U x" using assms(1) letter_facts alnum_word by blast
  with assms(2) show ?thesis by (cases p) (simp_all add: at_boundary_def)
qed

lemma boundary_not_before:
  assumes "is_letter x" "at_boundary U p (x # t)"
  shows "\<not> (case p of None \<Rightarrow> False | Some a \<Rightarrow> is_word U a)"
proof -
  have "is_word U x" using assms(1) letter_facts alnum_word by blast
  with assms(2) show ?thesis by (cases p) (simp_all add: at_boundary_def)
qed

lemma occurrence_covers:
  assumes bd: "at_boundary U p s"
    and s: "s = prop @ a1 # 45 # b1 # r" "is_space a1" "is_space b1" "\<forall>c\<in>set r. is_letter_hyphen c"
    and letters: "prop \<noteq> []"
    and y: "is_letter y"
  shows "occurrence U prop p (s @ y # ys) =
     Some (r @ takeWhile is_letter_hyphen (y # ys), dropWhile is_letter_hyphen (y # ys))"
proof -
  have ne: "s \<noteq> []" using s(1) letters by simp
  have yl: "is_letter_hyphen y" using y letter_facts by blast
  have tw: "takeWhile is_letter_hyphen (r @ y # ys) = r @ takeWhile is_letter_hyphen (y # ys)"
    "dropWhile is_letter_hyphen (r @ y # ys) = dropWhile is_letter_hyphen (y # ys)"
    using s(4) by (simp_all add: takeWhile_append2 dropWhile_append2)
  have n: "takeWhile is_letter_hyphen (r @ y # ys) \<noteq> []"
    unfolding tw using yl by simp
  have e: "s @ y # ys = prop @ a1 # 45 # b1 # (r @ y # ys)"
    by (simp add: s(1))
  have "at_boundary U p (s @ y # ys)"
    using bd at_boundary_head [OF ne] by blast
  then have "at_boundary U p (prop @ a1 # 45 # b1 # (r @ y # ys))"
    unfolding e .
  from occurrence_at_prop [OF this s(2,3) n]
  show ?thesis unfolding e tw .
qed

lemma skipped_iff:
  assumes letters: "prop \<noteq> []" "\<forall>c\<in>set prop. is_letter c"
    and y: "is_letter y"
  shows "\<not> (case before p pre of None \<Rightarrow> False | Some a \<Rightarrow> is_word U a) \<Longrightarrow>
     (\<not> stands U prop p (pre @ y # ys) (length pre)) \<longleftrightarrow>
       (\<exists>a a1 b1 r. pre = a @ prop @ a1 # 45 # b1 # r \<and> is_space a1 \<and> is_space b1 \<and>
          (\<forall>c\<in>set r. is_letter_hyphen c) \<and>
          \<not> (case before p a of None \<Rightarrow> False | Some z \<Rightarrow> is_word U z) \<and>
          stands U prop p (pre @ y # ys) (length a))"
proof (induction "length pre" arbitrary: pre p rule: less_induct)
  case less
  let ?rest = "y # ys"
  let ?Q = "\<lambda>p pre a. \<exists>a1 b1 r. pre = a @ prop @ a1 # 45 # b1 # r \<and> is_space a1 \<and> is_space b1 \<and>
          (\<forall>c\<in>set r. is_letter_hyphen c) \<and>
          \<not> (case before p a of None \<Rightarrow> False | Some z \<Rightarrow> is_word U z) \<and>
          stands U prop p (pre @ ?rest) (length a)"
  obtain x xs where pc: "prop = x # xs" using letters(1) by (cases "prop") auto
  then have x: "is_letter x" using letters(2) by simp
  have goal: "(\<not> stands U prop p (pre @ ?rest) (length pre)) \<longleftrightarrow> (\<exists>a. ?Q p pre a)"
  proof (cases pre)
    case Nil
    then show ?thesis by simp
  next
    case (Cons c b)
    with less.prems have lw: "\<not> is_word U (last pre)" by (simp add: before_def)
    have ne: "pre \<noteq> []" using Cons by simp
    have e1: "pre @ ?rest = c # (b @ ?rest)" by (simp add: Cons)
    show ?thesis
    proof (cases "at_boundary U p pre \<and>
        (\<exists>a1 b1 r. pre = prop @ a1 # 45 # b1 # r \<and> is_space a1 \<and> is_space b1 \<and>
           (\<forall>c\<in>set r. is_letter_hyphen c))")
      case True
      then obtain a1 b1 r where r: "pre = prop @ a1 # 45 # b1 # r" "is_space a1" "is_space b1"
        "\<forall>c\<in>set r. is_letter_hyphen c" and bd: "at_boundary U p pre" by blast
      have o: "occurrence U prop p (c # (b @ ?rest)) =
          Some (r @ takeWhile is_letter_hyphen ?rest, dropWhile is_letter_hyphen ?rest)"
        using occurrence_covers [OF bd r letters(1) y, of ys] unfolding e1 .
      have yl: "is_letter_hyphen y" using y letter_facts by blast
      define t where "t = takeWhile is_letter_hyphen ?rest"
      define d where "d = dropWhile is_letter_hyphen ?rest"
      have td: "?rest = t @ d" "t \<noteq> []"
        unfolding t_def d_def using yl by simp_all
      have split: "c # (b @ ?rest) = (pre @ t) @ d"
        using td(1) e1 by (metis append.assoc)
      have "stands U prop p (c # (b @ ?rest)) (Suc (length b)) =
          (length (pre @ t) \<le> Suc (length b) \<and>
           stands U prop (Some (last (r @ t))) d (Suc (length b) - length (pre @ t)))"
        by (rule stands_Some [OF o [folded t_def d_def] split]) (simp add: ne)
      moreover have "\<not> length (pre @ t) \<le> Suc (length b)"
        using td(2) by (simp add: Cons)
      ultimately have n: "\<not> stands U prop p (pre @ ?rest) (length pre)"
        unfolding e1 by (simp add: Cons)
      have "at_boundary U p (x # xs @ a1 # 45 # b1 # r)"
        using bd r(1) pc by simp
      from boundary_not_before [OF x this]
      have "\<not> (case before p [] of None \<Rightarrow> False | Some z \<Rightarrow> is_word U z)" by simp
      moreover have "stands U prop p (pre @ ?rest) (length ([] :: str))" by simp
      ultimately have "?Q p pre []"
        using r by (metis append_Nil)
      with n show ?thesis by blast
    next
      case False
      have first: "\<not> ?Q p pre []"
      proof
        assume "?Q p pre []"
        then obtain a1 b1 r where r: "pre = prop @ a1 # 45 # b1 # r" "is_space a1" "is_space b1"
          "\<forall>c\<in>set r. is_letter_hyphen c"
          and q: "\<not> (case p of None \<Rightarrow> False | Some z \<Rightarrow> is_word U z)" by auto
        have "at_boundary U p (x # xs @ a1 # 45 # b1 # r)"
          by (rule not_before_boundary [OF x q])
        then have "at_boundary U p pre" using r(1) pc by simp
        with False r show False by blast
      qed
      have l1: "occurrence U prop p (pre @ ?rest) =
          map_option (\<lambda>(w, r). (w, r @ ?rest)) (occurrence U prop p pre)"
        by (rule occurrence_local [OF letters(2) ne lw y False])
      show ?thesis
      proof (cases "occurrence U prop p pre")
        case None
        then have n: "occurrence U prop p (c # (b @ ?rest)) = None"
          using l1 by (simp add: Cons)
        have st: "stands U prop p (pre @ ?rest) (Suc k) = stands U prop (Some c) (b @ ?rest) k" for k
          unfolding e1 by (rule stands_None [OF n])
        have q: "\<not> (case before (Some c) b of None \<Rightarrow> False | Some a \<Rightarrow> is_word U a)"
          using less.prems Cons by simp
        have ih: "(\<not> stands U prop (Some c) (b @ ?rest) (length b)) \<longleftrightarrow> (\<exists>a. ?Q (Some c) b a)"
          by (rule less.hyps [OF _ q]) (simp add: Cons)
        have m: "?Q p pre (c # a) \<longleftrightarrow> ?Q (Some c) b a" for a
          using st [of "length a"] by (simp add: Cons)
        have "(\<exists>a. ?Q p pre a) \<longleftrightarrow> (\<exists>a. ?Q (Some c) b a)"
        proof
          assume "\<exists>a. ?Q p pre a"
          then obtain a where a: "?Q p pre a" ..
          with first have "a \<noteq> []" by blast
          moreover from a obtain t where "pre = a @ t" by blast
          ultimately obtain a' where "a = c # a'" using Cons by (cases a) auto
          with a m show "\<exists>a. ?Q (Some c) b a" by blast
        next
          assume "\<exists>a. ?Q (Some c) b a"
          with m show "\<exists>a. ?Q p pre a" by blast
        qed
        with ih st [of "length b"] show ?thesis by (simp add: Cons)
      next
        case (Some res)
        obtain w' r' where res: "res = (w', r')" by (cases res)
        from occurrence_rest [OF Some [unfolded res]] obtain a0
          where a0: "pre = a0 @ r'" "a0 \<noteq> []" "last a0 = last w'" by blast
        have o: "occurrence U prop p (c # (b @ ?rest)) = Some (w', r' @ ?rest)"
          using l1 Some res by (simp add: Cons)
        have split: "c # (b @ ?rest) = a0 @ (r' @ ?rest)"
          using a0(1) e1 by simp
        have st: "stands U prop p (pre @ ?rest) (Suc k) =
            (length a0 \<le> Suc k \<and> stands U prop (Some (last w')) (r' @ ?rest) (Suc k - length a0))" for k
          unfolding e1 by (rule stands_Some [OF o split a0(2)])
        have len: "length pre = length a0 + length r'" using a0(1) by simp
        have lt: "length r' < length pre" using len a0(2) by simp
        have "before (Some (last w')) r' = Some (last pre)"
          using a0 by (cases "r' = []") (simp_all add: before_def)
        then have q: "\<not> (case before (Some (last w')) r' of None \<Rightarrow> False | Some a \<Rightarrow> is_word U a)"
          using lw by simp
        have ih: "(\<not> stands U prop (Some (last w')) (r' @ ?rest) (length r')) \<longleftrightarrow>
            (\<exists>a. ?Q (Some (last w')) r' a)"
          by (rule less.hyps [OF lt q])
        have bf: "before p (a0 @ a) = before (Some (last w')) a" for a
          using a0(2,3) by (simp add: before_def)
        have sa: "stands U prop p (pre @ ?rest) (length (a0 @ a)) =
            stands U prop (Some (last w')) (r' @ ?rest) (length a)" for a
        proof -
          obtain k where k: "length (a0 @ a) = Suc k" using a0(2) by (cases a0) auto
          then have "length a0 \<le> Suc k" "Suc k - length a0 = length a" by simp_all
          then show ?thesis unfolding k st by simp
        qed
        have eq: "pre = (a0 @ a) @ t \<longleftrightarrow> r' = a @ t" for a t
          using a0(1) by simp
        have m: "?Q p pre (a0 @ a) \<longleftrightarrow> ?Q (Some (last w')) r' a" for a
          by (simp only: bf sa eq)
        have "(\<exists>a. ?Q p pre a) \<longleftrightarrow> (\<exists>a. ?Q (Some (last w')) r' a)"
        proof
          assume "\<exists>a. ?Q p pre a"
          then obtain a where a: "?Q p pre a" ..
          with first have an: "a \<noteq> []" by blast
          then obtain k where k: "length a = Suc k" by (cases a) auto
          from a have "stands U prop p (pre @ ?rest) (length a)" by blast
          then have le: "length a0 \<le> length a" unfolding k st by blast
          from a obtain t where t: "pre = a @ t" by blast
          have "a = a0 @ drop (length a0) a"
          proof -
            have "take (length a0) pre = a0" using a0(1) by simp
            moreover have "take (length a0) pre = take (length a0) a" using t le by simp
            ultimately have "take (length a0) a = a0" by simp
            then show ?thesis by (metis append_take_drop_id)
          qed
          with a m [of "drop (length a0) a"] show "\<exists>a. ?Q (Some (last w')) r' a" by metis
        next
          assume "\<exists>a. ?Q (Some (last w')) r' a"
          with m show "\<exists>a. ?Q p pre a" by blast
        qed
        moreover have "stands U prop p (pre @ ?rest) (length pre) =
            stands U prop (Some (last w')) (r' @ ?rest) (length r')"
          using sa [of r'] a0(1) by simp
        ultimately show ?thesis using ih by simp
      qed
    qed
  qed
  then show ?case by blast
qed

lemma css_prop_skipped:
  assumes "prop \<in> set known_css_props" and "pre = [] \<or> \<not> is_word U (last pre)"
  shows "(\<not> stands U prop None (pre @ prop @ [s1] @ cps ''-'' @ [s2] @ w @ post) (length pre)) \<longleftrightarrow>
     (\<exists>a a1 b1 r. pre = a @ prop @ [a1] @ cps ''-'' @ [b1] @ r \<and> is_space a1 \<and> is_space b1 \<and>
        (\<forall>c\<in>set r. is_letter_hyphen c) \<and> (a = [] \<or> \<not> is_word U (last a)) \<and>
        stands U prop None (pre @ prop @ [s1] @ cps ''-'' @ [s2] @ w @ post) (length a))"
proof -
  from known_css_props_letters [OF assms(1)]
  have letters: "prop \<noteq> []" "\<forall>c\<in>set prop. is_letter c" by blast+
  obtain x xs where pc: "prop = x # xs" using letters(1) by (cases "prop") auto
  then have x: "is_letter x" using letters(2) by simp
  have q: "\<not> (case before None pre of None \<Rightarrow> False | Some a \<Rightarrow> is_word U a)"
    using assms(2) by (auto simp: before_def)
  have b: "(\<not> (case before None a of None \<Rightarrow> False | Some z \<Rightarrow> is_word U z)) \<longleftrightarrow>
      (a = [] \<or> \<not> is_word U (last a))" for a
    by (simp add: before_def)
  have b: "(\<not> (case before None a of None \<Rightarrow> False | Some z \<Rightarrow> is_word U z)) \<longleftrightarrow>
      (a = [] \<or> \<not> is_word U (last a))" for a
    by (simp add: before_def)
  define t where "t = pre @ prop @ [s1] @ cps ''-'' @ [s2] @ w @ post"
  have t: "t = pre @ x # (xs @ s1 # 45 # s2 # w @ post)"
    by (simp add: t_def pc)
  have f: "a @ prop @ [a1] @ cps ''-'' @ [b1] @ r = a @ prop @ a1 # 45 # b1 # r" for a a1 b1 r
    by simp
  have "(\<not> stands U prop None t (length pre)) \<longleftrightarrow>
     (\<exists>a a1 b1 r. pre = a @ prop @ a1 # 45 # b1 # r \<and> is_space a1 \<and> is_space b1 \<and>
        (\<forall>c\<in>set r. is_letter_hyphen c) \<and> (a = [] \<or> \<not> is_word U (last a)) \<and>
        stands U prop None t (length a))"
    unfolding t using skipped_iff [OF letters x q, of "xs @ s1 # 45 # s2 # w @ post"]
    unfolding b .
  then show ?thesis unfolding f t_def .
qed

section \<open>Literal replacement\<close>

lemma occurs_iff: "occurs old s \<longleftrightarrow> (\<exists>a b. s = a @ old @ b)"
proof (induction s)
  case Nil
  show ?case by auto
next
  case (Cons c s)
  show ?case
  proof
    assume "occurs old (c # s)"
    then consider "prefix old (c # s)" | "occurs old s" by auto
    then show "\<exists>a b. c # s = a @ old @ b"
    proof cases
      case 1
      then obtain b where "c # s = old @ b" by (auto simp: prefix_def)
      then have "c # s = [] @ old @ b" by simp
      then show ?thesis by blast
    next
      case 2
      with Cons obtain a b where "s = a @ old @ b" by blast
      then have "c # s = (c # a) @ old @ b" by simp
      then show ?thesis by blast
    qed
  next
    assume "\<exists>a b. c # s = a @ old @ b"
    then obtain a b where ab: "c # s = a @ old @ b" by blast
    show "occurs old (c # s)"
    proof (cases a)
      case Nil
      with ab have "prefix old (c # s)" by (simp add: prefix_def)
      then show ?thesis by simp
    next
      case (Cons x a')
      with ab have "s = a' @ old @ b" by simp
      with Cons.IH show ?thesis by auto
    qed
  qed
qed

lemma no_suffix_prefix_iff:
  "no_suffix_prefix a b \<longleftrightarrow> (\<forall>s. s \<noteq> [] \<and> suffix s a \<longrightarrow> \<not> prefix s b)"
  by (induction a) (auto simp: suffix_Cons)

lemma replace_none: "old \<noteq> [] \<Longrightarrow> \<not> occurs old s \<Longrightarrow> replace old new s = s"
  by (induction s) auto

lemma clear_of_Cons: "clear_of old (c # b) tail \<Longrightarrow> clear_of old b tail"
  unfolding clear_of_def by (metis append_Cons)

lemma clear_of_append: "clear_of old (a @ r) tail \<Longrightarrow> clear_of old r tail"
  unfolding clear_of_def by (metis append.assoc)

lemma replace_append:
  assumes ne: "old \<noteq> []"
  shows "clear_of old pre tail \<Longrightarrow>
    replace old new (pre @ tail) = replace old new pre @ replace old new tail"
proof (induction "length pre" arbitrary: pre rule: less_induct)
  case less
  show ?case
  proof (cases pre)
    case Nil
    with ne show ?thesis by simp
  next
    case (Cons c b)
    from less.prems Cons have here: "prefix old (c # b @ tail) = prefix old (c # b)"
      unfolding clear_of_def by (metis append_Nil)
    show ?thesis
    proof (cases "prefix old (c # b)")
      case False
      have "clear_of old b tail" using less.prems Cons clear_of_Cons by blast
      from less.hyps [OF _ this] Cons False here ne show ?thesis by simp
    next
      case True
      then obtain r where r: "c # b = old @ r" by (auto simp: prefix_def)
      then have dr: "drop (length old) (c # b) = r" "drop (length old) (c # b @ tail) = r @ tail"
        by (metis append_eq_conv_conj, metis append.assoc append_Cons append_eq_conv_conj)
      have len: "length r < length pre" using r ne Cons
        by (metis add_diff_cancel_right' diff_less length_append length_greater_0_conv
            less_add_same_cancel2 list.size(4) not_add_less2 zero_less_Suc) 
      have "clear_of old r tail" using less.prems Cons r clear_of_append by metis
      from less.hyps [OF len this] Cons True here ne dr show ?thesis by simp
    qed
  qed
qed

lemma prefix_grow: "prefix old (c # b) \<Longrightarrow> prefix old (c # b @ tail)"
  by (metis append_Cons prefix_prefix)

lemma straddle:
  assumes "prefix old (s @ tail)" "\<not> prefix old s"
  obtains us where "old = s @ us" "us \<noteq> []" "prefix us tail"
  using assms by (metis append_Nil2 prefix_append prefix_order.order_refl)

lemma clear_of_self:
  assumes "unbordered old"
  shows "clear_of old pre (old @ post)"
  unfolding clear_of_def
proof (intro allI impI)
  fix a c b
  assume "pre = a @ c # b"
  have "prefix old (c # b)" if h: "prefix old ((c # b) @ old @ post)"
  proof (rule ccontr)
    assume n: "\<not> prefix old (c # b)"
    from straddle [OF h n] obtain us
      where us: "old = (c # b) @ us" "us \<noteq> []" "prefix us (old @ post)" by blast
    from us(1) have "length us < length old" by (metis length_append length_greater_0_conv less_add_same_cancel2 list.discI add.commute)
    with us(3) have p: "prefix us old"
      by (metis prefix_length_prefix Sublist.prefix_prefix less_or_eq_imp_le prefix_order.order_refl)
    obtain x xs where old: "old = x # xs" using us(1) by simp
    with us(1) have "suffix us xs" by (metis append_Cons list.inject suffixI)
    with assms us(2) p show False
      unfolding unbordered_def old by (simp add: no_suffix_prefix_iff)
  qed
  then show "prefix old (c # b @ old @ post) = prefix old (c # b)"
    using prefix_grow by auto
qed

lemma replace_at:
  assumes "unbordered old"
  shows "replace old new (pre @ old @ post) = replace old new pre @ new @ replace old new post"
proof -
  have ne: "old \<noteq> []" using assms by (simp add: unbordered_def)
  then obtain x xs where old: "old = x # xs" by (cases old) auto
  have "replace old new (old @ post) = new @ replace old new post"
    using ne by (simp add: old)
  with replace_append [OF ne clear_of_self [OF assms]] show ?thesis by simp
qed

lemma clear_of_before:
  assumes "apart old t"
  shows "clear_of old pre (t @ post)"
  unfolding clear_of_def
proof (intro allI impI)
  fix a c b
  assume "pre = a @ c # b"
  have "prefix old (c # b)" if h: "prefix old ((c # b) @ t @ post)"
  proof (rule ccontr)
    assume n: "\<not> prefix old (c # b)"
    from straddle [OF h n] obtain us
      where us: "old = (c # b) @ us" "us \<noteq> []" "prefix us (t @ post)" by blast
    have su: "suffix us old" using us(1) by (metis suffixI)
    show False
    proof (cases "prefix us t")
      case True
      with su us(2) assms show False by (auto simp: apart_def no_suffix_prefix_iff)
    next
      case False
      from straddle [OF us(3) False] obtain vs where "us = t @ vs" by blast
      with us(1) have "occurs t old" unfolding occurs_iff by blast
      with assms show False by (simp add: apart_def)
    qed
  qed
  then show "prefix old (c # b @ t @ post) = prefix old (c # b)"
    using prefix_grow by auto
qed

lemma clear_of_inside:
  assumes "apart old t"
  shows "clear_of old t post"
  unfolding clear_of_def
proof (intro allI impI)
  fix a c b
  assume t: "t = a @ c # b"
  have n: "\<not> prefix old (c # b)"
  proof
    assume "prefix old (c # b)"
    then obtain r where "c # b = old @ r" by (auto simp: prefix_def)
    with t have "t = a @ old @ r" by simp
    then have "occurs old t" unfolding occurs_iff by blast
    with assms show False by (simp add: apart_def)
  qed
  have "\<not> prefix old ((c # b) @ post)"
  proof
    assume h: "prefix old ((c # b) @ post)"
    from straddle [OF h n] obtain us where "old = (c # b) @ us" by blast
    then have "prefix (c # b) old" by simp
    moreover have "suffix (c # b) t" using t by (simp add: suffix_def)
    ultimately show False using assms by (auto simp: apart_def no_suffix_prefix_iff)
  qed
  with n show "prefix old (c # b @ post) = prefix old (c # b)" by simp
qed

lemma replace_around:
  assumes "apart old t"
  shows "replace old new (pre @ t @ post) = replace old new pre @ t @ replace old new post"
proof -
  have ne: "old \<noteq> []" using assms by (simp add: apart_def)
  have "replace old new t = t"
    using assms by (simp add: apart_def replace_none)
  with replace_append [OF ne clear_of_inside [OF assms], of new post]
  have "replace old new (t @ post) = t @ replace old new post" by simp
  with replace_append [OF ne clear_of_before [OF assms], of new pre post] show ?thesis by simp
qed

lemma prose_unbordered:
  "unbordered (cps ''Free -for-All'')" "unbordered (cps ''Co - op'')"
  "unbordered (cps ''Free - for - All'')"
  by (simp_all add: unbordered_def)

lemma prose_apart:
  "apart (cps ''Free -for-All'') (cps ''Co - op'')"
  "apart (cps ''Free -for-All'') (cps ''Free - for - All'')"
  "apart (cps ''Co - op'') (cps ''Free - for - All'')"
  "apart (cps ''Co - op'') (cps ''Free-for-All'')"
  "apart (cps ''Free - for - All'') (cps ''Free-for-All'')"
  "apart (cps ''Free - for - All'') (cps ''Co-op'')"
  by (simp_all add: apart_def)

lemma fix_prose_unfold:
  "fix_prose x = replace (cps ''Free - for - All'') (cps ''Free-for-All'')
     (replace (cps ''Co - op'') (cps ''Co-op'')
       (replace (cps ''Free -for-All'') (cps ''Free-for-All'') x))"
  by (simp add: fix_prose_def replace_all_def prose_fixes_def)

lemma prose_split_1:
  "fix_prose (pre @ cps ''Free -for-All'' @ post) = fix_prose pre @ cps ''Free-for-All'' @ fix_prose post"
  by (simp only: fix_prose_unfold replace_at [OF prose_unbordered(1)]
      replace_around [OF prose_apart(4)] replace_around [OF prose_apart(5)])

lemma prose_split_2:
  "fix_prose (pre @ cps ''Co - op'' @ post) = fix_prose pre @ cps ''Co-op'' @ fix_prose post"
  by (simp only: fix_prose_unfold replace_around [OF prose_apart(1)]
      replace_at [OF prose_unbordered(2)] replace_around [OF prose_apart(6)])

lemma prose_split_3:
  "fix_prose (pre @ cps ''Free - for - All'' @ post) = fix_prose pre @ cps ''Free-for-All'' @ fix_prose post"
  by (simp only: fix_prose_unfold replace_around [OF prose_apart(2)]
      replace_around [OF prose_apart(3)] replace_at [OF prose_unbordered(3)])

lemma prose_frame:
  assumes "\<forall>(old, new)\<in>set prose_fixes. \<not> occurs old s"
  shows "fix_prose s = s"
proof -
  from assms have "\<not> occurs (cps ''Free -for-All'') s" "\<not> occurs (cps ''Co - op'') s"
    "\<not> occurs (cps ''Free - for - All'') s"
    by (simp_all add: prose_fixes_def)
  then show ?thesis
    by (simp add: fix_prose_def replace_all_def prose_fixes_def replace_none)
qed

section \<open>Text of ASCII characters\<close>


lemma ascii_before_simps [simp]:
  "ascii_before None" "ascii_before (Some c) \<longleftrightarrow> c < 128"
  by (simp_all add: ascii_before_def)


lemma is_ascii_take: "is_ascii s \<Longrightarrow> is_ascii (take n s)"
  unfolding is_ascii_def by (meson in_set_takeD)










section \<open>The loop over the prefixes\<close>

lemma foldl_keep: "foldl (\<lambda>content prefix. content) content ps = content"
  by (induction ps) simp_all

lemma prefix_loop_id: "prefix_loop content = content"
  by (simp add: prefix_loop_def foldl_keep)

text \<open>
  C9. The loop over \<^verbatim>\<open>prefixes\<close> changes nothing: the script and the script without
  the loop give the same text on every input.
\<close>

theorem prefix_loop_is_dead_code:
  "pipeline U x = pipeline_without_prefix_loop U x"
  by (simp add: pipeline_def pipeline_without_prefix_loop_def prefix_loop_id)

section \<open>The full scenario\<close>

lemma scenario_closing:
  "fix_closing_tags U (cps ''<div class=\"mp - room - details\"> text </ div>'')
     = cps ''<div class=\"mp - room - details\"> text </div>''"
  by (simp add: class_defs pass_defs)

lemma scenario_opening:
  "fix_opening_tags U (cps ''<div class=\"mp - room - details\"> text </div>'')
     = cps ''<div class=\"mp - room - details\"> text </div>''"
  by (simp add: class_defs pass_defs)

lemma scenario_attr_hyphens:
  "fix_attr_hyphens U (cps ''<div class=\"mp - room - details\"> text </div>'')
     = cps ''<div class=\"mp - room - details\"> text </div>''"
  by (simp add: class_defs pass_defs)

lemma scenario_attr_equals:
  "fix_attr_equals U (cps ''<div class=\"mp - room - details\"> text </div>'')
     = cps ''<div class=\"mp - room - details\"> text </div>''"
  by (simp add: class_defs pass_defs)

lemma scenario_css_props:
  "fix_css_props U (cps ''<div class=\"mp - room - details\"> text </div>'')
     = cps ''<div class=\"mp - room - details\"> text </div>''"
  by (simp add: class_defs pass_defs table_defs)

lemma scenario_selectors:
  "fix_selectors (cps ''<div class=\"mp - room - details\"> text </div>'')
     = cps ''<div class=\"mp-room-details\"> text </div>''"
  by (simp add: table_defs)

lemma scenario_prose:
  "fix_prose (cps ''<div class=\"mp-room-details\"> text </div>'')
     = cps ''<div class=\"mp-room-details\"> text </div>''"
  by (simp add: table_defs)

text \<open>
  C3. The script turns \<^verbatim>\<open><div class="mp - room - details"> text </ div>\<close> into
  \<^verbatim>\<open><div class="mp-room-details"> text </div>\<close>: the first pass repairs the closing tag,
  the replacements of \<^verbatim>\<open>room - details\<close> and \<^verbatim>\<open>mp - room\<close> repair the class.
\<close>

theorem full_scenario:
  "pipeline U (cps ''<div class=\"mp - room - details\"> text </ div>'')
     = cps ''<div class=\"mp-room-details\"> text </div>''"
  unfolding pipeline_def scenario_closing scenario_opening scenario_attr_hyphens
    scenario_attr_equals scenario_css_props prefix_loop_id scenario_selectors scenario_prose ..

section \<open>A second run\<close>

lemma spaced_attr_once:
  "pipeline U (cps ''data - order = \"1\"'') = cps ''data - order=\"1\"''"
  by (simp add: pipeline_def class_defs pass_defs table_defs)

lemma spaced_attr_twice:
  "pipeline U (cps ''data - order=\"1\"'') = cps ''data-order=\"1\"''"
  by (simp add: pipeline_def class_defs pass_defs table_defs)

text \<open>
  C1. A second run can change what the first run has left, so the script does not keep what
  C1 says of it. The pass on the hyphenated attributes (line 20) needs the equals sign
  directly behind the second word and runs before the pass that removes the whitespace
  around the equals sign (line 23). The first run turns \<^verbatim>\<open>data - order = "1"\<close> into
  \<^verbatim>\<open>data - order="1"\<close>, where the attribute still has its spaced hyphen; the second run
  turns that into \<^verbatim>\<open>data-order="1"\<close>. The comment above line 20 says that the pass is
  looped; it runs once.
\<close>

theorem second_run_changes_text:
  "pipeline U (cps ''data - order = \"1\"'') = cps ''data - order=\"1\"'' \<and>
   pipeline U (pipeline U (cps ''data - order = \"1\"'')) = cps ''data-order=\"1\"'' \<and>
   pipeline U (pipeline U (cps ''data - order = \"1\"'')) \<noteq> pipeline U (cps ''data - order = \"1\"'')"
  by (simp add: spaced_attr_once [simplified] spaced_attr_twice [simplified])

section \<open>Reading, writing and reporting\<close>

lemma closing_div_dirty: "pipeline U (cps ''</ div>'') = cps ''</div>''"
  by (simp add: pipeline_def class_defs pass_defs table_defs)

lemma closing_div_clean: "pipeline U (cps ''</div>'') = cps ''</div>''"
  by (simp add: pipeline_def class_defs pass_defs table_defs)

lemma cut_off_prefix: "cut_off k s = Inr t \<Longrightarrow> prefix t s"
proof (induction s arbitrary: k t)
  case Nil
  then show ?case by simp
next
  case (Cons c s)
  show ?case
  proof (cases "k = 0 \<or> k < utf8_length c")
    case True
    with Cons.prems show ?thesis by (auto split: if_splits)
  next
    case False
    with Cons.prems obtain t' where t': "cut_off (k - utf8_length c) s = Inr t'" "t = c # t'"
      by (auto split: sum.splits)
    from Cons.IH [OF t'(1)] t'(2) show ?thesis by simp
  qed
qed

lemma cut_off_div: "cut_off 3 (cps ''</div>'') = Inr (cps ''</d'')"
  by (simp add: utf8_length_def)

text \<open>
  C2. When the file is read as \<open>x\<close> and is written without an exception: the file is
  written if and only if the script's text differs from \<open>x\<close>. If it does not differ, nothing
  is written, the world is as before and \<^verbatim>\<open>No changes needed\<close> is printed; if it differs,
  the file holds the script's text afterwards and \<^verbatim>\<open>Fixed corruption in menu.ts\<close> is
  printed.
\<close>

theorem rewritten_iff_changed:
  assumes "target w = Inr x" and "writing w = Written"
  shows "((\<exists>c. Write c \<in> set (fst (snd (run U w)))) \<longleftrightarrow> pipeline U x \<noteq> x) \<and>
         (pipeline U x = x \<longrightarrow>
            run U w = (w, [Print (cps ''No changes needed'')], None)) \<and>
         (pipeline U x \<noteq> x \<longrightarrow>
            run U w = (w\<lparr>target := Inr (pipeline U x)\<rparr>,
                       [Write (pipeline U x), Print (cps ''Fixed corruption in menu.ts'')], None))"
  using assms by (simp add: run_def Let_def)

theorem rewritten_iff_changed_witness:
  "run ascii_words \<lparr>target = Inr (cps ''</div>''), writing = Written\<rparr>
     = (\<lparr>target = Inr (cps ''</div>''), writing = Written\<rparr>,
        [Print (cps ''No changes needed'')], None) \<and>
   run ascii_words \<lparr>target = Inr (cps ''</ div>''), writing = Written\<rparr>
     = (\<lparr>target = Inr (cps ''</div>''), writing = Written\<rparr>,
        [Write (cps ''</div>''), Print (cps ''Fixed corruption in menu.ts'')], None)"
  using rewritten_iff_changed [of "\<lparr>target = Inr (cps ''</div>''), writing = Written\<rparr>"
          "cps ''</div>''" ascii_words]
        rewritten_iff_changed [of "\<lparr>target = Inr (cps ''</ div>''), writing = Written\<rparr>"
          "cps ''</ div>''" ascii_words]
  by (simp add: closing_div_clean [simplified] closing_div_dirty [simplified])

text \<open>
  The claim C7 as it is written fails: line 124 empties the file before line 125 writes,
  and nothing is written to another place first. When the write is cut by an exception
  after three bytes, the file that held \<^verbatim>\<open></ div>\<close> holds \<^verbatim>\<open></d\<close>, which is neither the
  old text nor the text of the script.
\<close>

theorem failed_write_leaves_part:
  "target (fst (run ascii_words
      \<lparr>target = Inr (cps ''</ div>''), writing = WriteRaises OSError 3\<rparr>)) = Inr (cps ''</d'') \<and>
   Inr (cps ''</d'') \<noteq> target \<lparr>target = Inr (cps ''</ div>''), writing = WriteRaises OSError 3\<rparr> \<and>
   cps ''</d'' \<noteq> pipeline ascii_words (cps ''</ div>'')"
  by (simp add: run_def Let_def closing_div_dirty [simplified] cut_off_div [simplified])

text \<open>
  C7, amended. The script calls \<^verbatim>\<open>f.write\<close> only after the whole transformation, with
  its complete result, and only when that differs from the text read. When the read raises
  an exception, the run ends with that exception, has no effect and leaves the world as it
  was; so does a run in which the file cannot be opened for writing, and a run without a
  call of \<^verbatim>\<open>f.write\<close> leaves the world as it was. A run that ends without an exception
  leaves the old text or the complete text of the script in the file. A run whose write is
  cut by an exception leaves the beginning of the script's text in the file, as far as the
  bytes have reached it; any text in the file after a run is the old text or the beginning
  of the script's text.
\<close>

theorem write_only_after_transformation:
  "(\<forall>e. target w = Inl e \<longrightarrow> run U w = (w, [], Some e)) \<and>
   (\<forall>c. Write c \<in> set (fst (snd (run U w))) \<longrightarrow>
      (\<exists>x. target w = Inr x \<and> c = pipeline U x \<and> c \<noteq> x)) \<and>
   ((\<forall>c. Write c \<notin> set (fst (snd (run U w)))) \<longrightarrow> fst (run U w) = w) \<and>
   (\<forall>x e. target w = Inr x \<and> writing w = OpenRaises e \<and> pipeline U x \<noteq> x \<longrightarrow>
      run U w = (w, [], Some e)) \<and>
   (\<forall>x. target w = Inr x \<and> snd (snd (run U w)) = None \<longrightarrow>
      target (fst (run U w)) = Inr x \<or> target (fst (run U w)) = Inr (pipeline U x)) \<and>
   (\<forall>x e k. target w = Inr x \<and> writing w = WriteRaises e k \<and> pipeline U x \<noteq> x \<longrightarrow>
      run U w = (w\<lparr>target := cut_off k (pipeline U x)\<rparr>, [Write (pipeline U x)], Some e)) \<and>
   (\<forall>x t. target w = Inr x \<and> target (fst (run U w)) = Inr t \<longrightarrow>
      t = x \<or> prefix t (pipeline U x))"
proof -
  have "prefix t (pipeline U x)" if "cut_off k (pipeline U x) = Inr t" for k x t
    using that by (rule cut_off_prefix)
  then show ?thesis
    by (auto simp: run_def Let_def split: sum.splits write_result.splits)
qed

theorem write_only_after_transformation_witness:
  "run ascii_words \<lparr>target = Inl FileNotFoundError, writing = Written\<rparr>
     = (\<lparr>target = Inl FileNotFoundError, writing = Written\<rparr>, [], Some FileNotFoundError) \<and>
   run ascii_words \<lparr>target = Inr (cps ''</ div>''), writing = OpenRaises PermissionError\<rparr>
     = (\<lparr>target = Inr (cps ''</ div>''), writing = OpenRaises PermissionError\<rparr>, [],
        Some PermissionError) \<and>
   run ascii_words \<lparr>target = Inr (cps ''</ div>''), writing = WriteRaises OSError 3\<rparr>
     = (\<lparr>target = Inr (cps ''</d''), writing = WriteRaises OSError 3\<rparr>,
        [Write (cps ''</div>'')], Some OSError) \<and>
   target (fst (run ascii_words \<lparr>target = Inr (cps ''</ div>''), writing = Written\<rparr>))
     = Inr (cps ''</div>'')"
  using write_only_after_transformation
          [of "\<lparr>target = Inl FileNotFoundError, writing = Written\<rparr>" ascii_words]
        write_only_after_transformation
          [of "\<lparr>target = Inr (cps ''</ div>''), writing = OpenRaises PermissionError\<rparr>" ascii_words]
        write_only_after_transformation
          [of "\<lparr>target = Inr (cps ''</ div>''), writing = WriteRaises OSError 3\<rparr>" ascii_words]
        write_only_after_transformation
          [of "\<lparr>target = Inr (cps ''</ div>''), writing = Written\<rparr>" ascii_words]
  by (simp add: run_def Let_def closing_div_dirty [simplified] cut_off_div [simplified])





section \<open>The closing tags\<close>

lemma pipeline_order:
  "pipeline U x = fix_prose (fix_selectors (prefix_loop (fix_css_props U (fix_attr_equals U
     (fix_attr_hyphens U (fix_opening_tags U (fix_closing_tags U x)))))))"
  by (simp add: pipeline_def)

lemma closing_tag_examples:
  "fix_closing_tags U (cps ''</ div>'') = cps ''</div>''"
  "fix_closing_tags U (cps ''</   span>'') = cps ''</span>''"
  by (simp_all add: class_defs pass_defs)

text \<open>
  C6. Every occurrence of \<^verbatim>\<open></\<close>, one or more whitespace characters, a name of letters
  and digits and \<^verbatim>\<open>>\<close> is rewritten to \<^verbatim>\<open></\<close>, the name and \<^verbatim>\<open>>\<close>, and the text before
  and behind it is treated the same way; \<^verbatim>\<open></ div>\<close> becomes \<^verbatim>\<open></div>\<close> and
  \<^verbatim>\<open></   span>\<close> becomes \<^verbatim>\<open></span>\<close>; in the script the pass comes first, before the pass
  on the opening tags.
\<close>

theorem closing_tags_repaired:
  assumes "ws \<noteq> []" and "\<forall>c\<in>set ws. is_space c"
    and "name \<noteq> []" and "\<forall>c\<in>set name. is_alnum c"
  shows "fix_closing_tags U (pre @ cps ''</'' @ ws @ name @ cps ''>'' @ post)
           = fix_closing_tags U pre @ cps ''</'' @ name @ cps ''>'' @ fix_closing_tags U post \<and>
         fix_closing_tags U (cps ''</ div>'') = cps ''</div>'' \<and>
         fix_closing_tags U (cps ''</   span>'') = cps ''</span>'' \<and>
         pipeline U x = fix_prose (fix_selectors (prefix_loop (fix_css_props U (fix_attr_equals U
           (fix_attr_hyphens U (fix_opening_tags U (fix_closing_tags U x)))))))"
  using closing_tags_split [OF assms] closing_tag_examples pipeline_order by blast

theorem closing_tags_repaired_witness:
  "fix_closing_tags ascii_words (cps ''<b>x</   b> <i>y</ i>'') = cps ''<b>x</b> <i>y</i>''"
proof -
  have "fix_closing_tags ascii_words (cps ''<b>x'' @ cps ''</'' @ cps ''   '' @ cps ''b'' @ cps ''>'' @ cps '' <i>y</ i>'')
      = fix_closing_tags ascii_words (cps ''<b>x'') @ cps ''</'' @ cps ''b'' @ cps ''>''
          @ fix_closing_tags ascii_words (cps '' <i>y</ i>'')"
    using closing_tags_repaired [of "cps ''   ''" "cps ''b''" ascii_words "cps ''<b>x''" "cps '' <i>y</ i>''"]
    by (simp add: is_space_def is_alnum_def is_letter_def)
  moreover have "fix_closing_tags ascii_words (cps ''<b>x'') = cps ''<b>x''"
    "fix_closing_tags ascii_words (cps '' <i>y</ i>'') = cps '' <i>y</i>''"
    by (simp_all add: class_defs pass_defs)
  ultimately show ?thesis by simp
qed

section \<open>The hyphenated attributes\<close>

lemma attr_hyphen_examples:
  "fix_attr_hyphens U (cps ''data - order='') = cps ''data-order=''"
  "fix_attr_hyphens U (cps ''data  -  order='') = cps ''data  -  order=''"
  "fix_attr_hyphens U (cps ''_data - order='') = cps ''_data - order=''"
  by (simp_all add: class_defs pass_defs)

text \<open>
  The claim C4 as it is written fails on two texts: with two spaces on each side of the
  hyphen, and with an underscore directly before the first word, the pass changes nothing.
\<close>

theorem attr_hyphens_left_spaced:
  "fix_attr_hyphens ascii_words (cps ''data  -  order='') = cps ''data  -  order='' \<and>
   fix_attr_hyphens ascii_words (cps ''_data - order='') = cps ''_data - order=''"
  using attr_hyphen_examples(2,3) by blast

text \<open>
  C4, amended. Every occurrence of a word of letters and digits that starts at a word
  boundary (at the start of the text or behind a character that is no letter, digit or
  underscore), exactly one whitespace character, a hyphen, exactly one whitespace character,
  another word of letters and digits and an equals sign is rewritten to the two words joined
  by one hyphen before the equals sign, and the text before and behind it is treated the
  same way; \<^verbatim>\<open>data - order=\<close> becomes \<^verbatim>\<open>data-order=\<close>.
\<close>

theorem attr_hyphens_repaired:
  assumes "pre = [] \<or> \<not> is_word U (last pre)"
    and "w1 \<noteq> []" and "\<forall>c\<in>set w1. is_alnum c"
    and "is_space s1" and "is_space s2"
    and "w2 \<noteq> []" and "\<forall>c\<in>set w2. is_alnum c"
  shows "fix_attr_hyphens U (pre @ w1 @ [s1] @ cps ''-'' @ [s2] @ w2 @ cps ''='' @ post)
           = fix_attr_hyphens U pre @ w1 @ cps ''-'' @ w2 @ cps ''='' @ fix_attr_hyphens U post \<and>
         fix_attr_hyphens U (cps ''data - order='') = cps ''data-order=''"
  using attr_hyphens_split [OF assms] attr_hyphen_examples(1) by blast

theorem attr_hyphens_repaired_witness:
  "fix_attr_hyphens ascii_words (cps ''<td data - order=\"1\">'') = cps ''<td data-order=\"1\">''"
proof -
  have "fix_attr_hyphens ascii_words
      (cps ''<td '' @ cps ''data'' @ [32] @ cps ''-'' @ [32] @ cps ''order'' @ cps ''='' @ cps ''\"1\">'')
      = fix_attr_hyphens ascii_words (cps ''<td '') @ cps ''data'' @ cps ''-'' @ cps ''order''
          @ cps ''='' @ fix_attr_hyphens ascii_words (cps ''\"1\">'')"
    using attr_hyphens_repaired [of "cps ''<td ''" ascii_words "cps ''data''" 32 32 "cps ''order''" "cps ''\"1\">''"]
    by (simp add: class_defs)
  moreover have "fix_attr_hyphens ascii_words (cps ''<td '') = cps ''<td ''"
    "fix_attr_hyphens ascii_words (cps ''\"1\">'') = cps ''\"1\">''"
    by (simp_all add: class_defs pass_defs)
  ultimately show ?thesis by simp
qed

section \<open>The known properties\<close>

lemma css_props_examples:
  "fix_css_props U (cps ''box - shadow: 2px'') = cps ''box-shadow: 2px''"
  "fix_css_props U (cps ''Free - For:'') = cps ''Free - For:''"
  "fix_css_props U (cps ''box - box - x'') = cps ''box-box - x''"
  "fix_css_props U (cps ''box  -  shadow: 2px'') = cps ''box  -  shadow: 2px''"
  by (simp_all add: class_defs pass_defs table_defs)

text \<open>
  The claim C5 as it is written fails where two occurrences of a prefix overlap: in
  \<^verbatim>\<open>box - box - x\<close> the second \<^verbatim>\<open>box\<close> stands at a word boundary before a whitespace
  character, a hyphen, a whitespace character and a word, and keeps its whitespace, because
  it is the word of the first match. It also fails where the whitespace is more than one
  character: \<^verbatim>\<open>box  -  shadow: 2px\<close>, with two spaces on each side of the hyphen, stays as
  it is.
\<close>

theorem css_props_overlap:
  "fix_css_props ascii_words (cps ''box - box - x'') = cps ''box-box - x'' \<and>
   fix_css_props ascii_words (cps ''box - box - x'') \<noteq> cps ''box-box-x'' \<and>
   fix_css_props ascii_words (cps ''box  -  shadow: 2px'') = cps ''box  -  shadow: 2px''"
  by (simp add: css_props_examples(3,4) [simplified])

text \<open>
  C5, amended. The passes of the prefixes run in the order of the list, each on the text
  that the one before has left. Take an occurrence of a prefix of the list at a word
  boundary, exactly one whitespace character, a hyphen, exactly one whitespace character and
  the longest run of letters and hyphens behind it. When the scan of that prefix comes to
  stand at its start, the pass rewrites it to the prefix, a hyphen and the run, and treats
  the text before and behind it the same way. Otherwise the occurrence keeps its whitespace
  and its hyphen behind what the pass makes of the text up to the end of its prefix. The
  scan does not come to stand at the start of an occurrence exactly when that start lies in
  the run of letters and hyphens of an earlier occurrence of the same prefix at which the
  scan does stand. The whole pass leaves a text as it is exactly when no prefix of the list
  has an occurrence in it; \<^verbatim>\<open>box - shadow: 2px\<close> becomes \<^verbatim>\<open>box-shadow: 2px\<close> and
  \<^verbatim>\<open>Free - For:\<close> stays as it is.
\<close>

theorem css_props_repaired:
  assumes "prop \<in> set known_css_props"
    and "pre = [] \<or> \<not> is_word U (last pre)"
    and "is_space s1" and "is_space s2"
    and "w \<noteq> []" and "\<forall>c\<in>set w. is_letter_hyphen c"
    and "post = [] \<or> \<not> is_letter_hyphen (hd post)"
  shows "(stands U prop None (pre @ prop @ [s1] @ cps ''-'' @ [s2] @ w @ post) (length pre) \<longrightarrow>
           fix_css_prop U prop (pre @ prop @ [s1] @ cps ''-'' @ [s2] @ w @ post)
             = fix_css_prop U prop pre @ prop @ cps ''-'' @ w @ fix_css_prop U prop post) \<and>
         (\<not> stands U prop None (pre @ prop @ [s1] @ cps ''-'' @ [s2] @ w @ post) (length pre) \<longrightarrow>
           prefix (fix_css_prop U prop (pre @ prop) @ [s1] @ cps ''-'' @ [s2])
             (fix_css_prop U prop (pre @ prop @ [s1] @ cps ''-'' @ [s2] @ w @ post))) \<and>
         (\<not> stands U prop None (pre @ prop @ [s1] @ cps ''-'' @ [s2] @ w @ post) (length pre) \<longleftrightarrow>
           (\<exists>a a1 b1 r. pre = a @ prop @ [a1] @ cps ''-'' @ [b1] @ r \<and> is_space a1 \<and> is_space b1 \<and>
              (\<forall>c\<in>set r. is_letter_hyphen c) \<and> (a = [] \<or> \<not> is_word U (last a)) \<and>
              stands U prop None (pre @ prop @ [s1] @ cps ''-'' @ [s2] @ w @ post) (length a))) \<and>
         fix_css_props U content
           = foldl (\<lambda>content prop. fix_css_prop U prop content) content known_css_props \<and>
         (fix_css_props U content = content \<longleftrightarrow>
            (\<forall>prop\<in>set known_css_props. \<not> somewhere U prop None content)) \<and>
         fix_css_props U (cps ''box - shadow: 2px'') = cps ''box-shadow: 2px'' \<and>
         fix_css_props U (cps ''Free - For:'') = cps ''Free - For:''"
proof -
  note scan = css_prop_scan [OF assms]
  note skipped = css_prop_skipped [OF assms(1,2), of s1 s2 w post]
  note frame = fix_css_props_unchanged [of U content]
  from scan skipped frame css_props_examples(1,2) fix_css_props_def show ?thesis
    by blast
qed

theorem css_props_repaired_witness:
  "fix_css_prop ascii_words (cps ''box'') (cps ''a { box - shadow: 2px }'')
     = cps ''a { box-shadow: 2px }'' \<and>
   prefix (cps ''box-box - '') (fix_css_prop ascii_words (cps ''box'') (cps ''box - box - x'')) \<and>
   fix_css_prop ascii_words (cps ''box'') (cps ''box - box - box - x'') = cps ''box-box - box-x''"
proof -
  have "stands ascii_words (cps ''box'') None
      (cps ''box - box - '' @ cps ''box'' @ [32] @ cps ''-'' @ [32] @ cps ''x'' @ [])
      (length (cps ''box - box - ''))"
    by (simp add: occurrence_def class_defs)
  then have "fix_css_prop ascii_words (cps ''box'')
      (cps ''box - box - '' @ cps ''box'' @ [32] @ cps ''-'' @ [32] @ cps ''x'' @ [])
      = fix_css_prop ascii_words (cps ''box'') (cps ''box - box - '') @ cps ''box'' @ cps ''-''
          @ cps ''x'' @ fix_css_prop ascii_words (cps ''box'') []"
    using css_props_repaired [of "cps ''box''" "cps ''box - box - ''" ascii_words 32 32 "cps ''x''" "[]"]
    by (simp add: class_defs known_css_props_def)
  moreover have "fix_css_prop ascii_words (cps ''box'') (cps ''box - box - '') = cps ''box-box - ''"
    "fix_css_prop ascii_words (cps ''box'') [] = []"
    by (simp_all add: class_defs pass_defs)
  ultimately have third: "fix_css_prop ascii_words (cps ''box'') (cps ''box - box - box - x'')
      = cps ''box-box - box-x''"
    by simp
  have "stands ascii_words (cps ''box'') None
      (cps ''a { '' @ cps ''box'' @ [32] @ cps ''-'' @ [32] @ cps ''shadow'' @ cps '': 2px }'')
      (length (cps ''a { ''))"
    by (simp add: occurrence_def class_defs)
  then have "fix_css_prop ascii_words (cps ''box'')
      (cps ''a { '' @ cps ''box'' @ [32] @ cps ''-'' @ [32] @ cps ''shadow'' @ cps '': 2px }'')
      = fix_css_prop ascii_words (cps ''box'') (cps ''a { '') @ cps ''box'' @ cps ''-''
          @ cps ''shadow'' @ fix_css_prop ascii_words (cps ''box'') (cps '': 2px }'')"
    using css_props_repaired [of "cps ''box''" "cps ''a { ''" ascii_words 32 32 "cps ''shadow''"
        "cps '': 2px }''"]
    by (simp add: class_defs known_css_props_def)
  moreover have "fix_css_prop ascii_words (cps ''box'') (cps ''a { '') = cps ''a { ''"
    "fix_css_prop ascii_words (cps ''box'') (cps '': 2px }'') = cps '': 2px }''"
    by (simp_all add: class_defs pass_defs)
  moreover have "\<not> stands ascii_words (cps ''box'') None
      (cps ''box - '' @ cps ''box'' @ [32] @ cps ''-'' @ [32] @ cps ''x'' @ [])
      (length (cps ''box - ''))"
    by (simp add: occurrence_def class_defs)
  then have "prefix (fix_css_prop ascii_words (cps ''box'') (cps ''box - '' @ cps ''box'') @ [32] @ cps ''-'' @ [32])
      (fix_css_prop ascii_words (cps ''box'')
        (cps ''box - '' @ cps ''box'' @ [32] @ cps ''-'' @ [32] @ cps ''x'' @ []))"
    using css_props_repaired [of "cps ''box''" "cps ''box - ''" ascii_words 32 32 "cps ''x''" "[]"]
    by (simp add: class_defs known_css_props_def)
  moreover have "fix_css_prop ascii_words (cps ''box'') (cps ''box - '' @ cps ''box'') = cps ''box-box''"
    by (simp add: class_defs pass_defs)
  ultimately show ?thesis using third by simp
qed

section \<open>The phrases of the prose\<close>

text \<open>
  C8. The table of the phrases maps \<^verbatim>\<open>Co - op\<close> to \<^verbatim>\<open>Co-op\<close>, \<^verbatim>\<open>Free -for-All\<close> to
  \<^verbatim>\<open>Free-for-All\<close> and \<^verbatim>\<open>Free - for - All\<close> to \<^verbatim>\<open>Free-for-All\<close>. The pass replaces every
  occurrence of each literal of the table and treats the text before and behind it the same
  way; a text in which no literal of the table occurs is left as it is.
\<close>

theorem prose_phrases:
  "map_of prose_fixes (cps ''Co - op'') = Some (cps ''Co-op'') \<and>
   map_of prose_fixes (cps ''Free -for-All'') = Some (cps ''Free-for-All'') \<and>
   map_of prose_fixes (cps ''Free - for - All'') = Some (cps ''Free-for-All'') \<and>
   (\<forall>(old, new)\<in>set prose_fixes. \<forall>pre post.
      fix_prose (pre @ old @ post) = fix_prose pre @ new @ fix_prose post) \<and>
   (\<forall>s. (\<forall>(old, new)\<in>set prose_fixes. \<not> occurs old s) \<longrightarrow> fix_prose s = s)"
proof -
  have "\<forall>(old, new)\<in>set prose_fixes. \<forall>pre post.
      fix_prose (pre @ old @ post) = fix_prose pre @ new @ fix_prose post"
    unfolding prose_fixes_def using prose_split_1 prose_split_2 prose_split_3
    by (simp only: list.set ball_simps prod.case) simp
  moreover have "map_of prose_fixes (cps ''Co - op'') = Some (cps ''Co-op'')"
    "map_of prose_fixes (cps ''Free -for-All'') = Some (cps ''Free-for-All'')"
    "map_of prose_fixes (cps ''Free - for - All'') = Some (cps ''Free-for-All'')"
    by (simp_all add: prose_fixes_def)
  ultimately show ?thesis using prose_frame by blast
qed

theorem prose_phrases_witness:
  "fix_prose (cps ''Play Co - op now'') = cps ''Play Co-op now'' \<and>
   fix_prose (cps ''Tom - Jerry'') = cps ''Tom - Jerry''"
proof -
  have "(cps ''Co - op'', cps ''Co-op'') \<in> set prose_fixes"
    by (simp add: prose_fixes_def)
  with prose_phrases have "fix_prose (cps ''Play '' @ cps ''Co - op'' @ cps '' now'')
      = fix_prose (cps ''Play '') @ cps ''Co-op'' @ fix_prose (cps '' now'')"
    by blast
  moreover have "fix_prose (cps ''Play '') = cps ''Play ''" "fix_prose (cps '' now'') = cps '' now''"
    by (simp_all add: table_defs)
  moreover have "\<forall>(old, new)\<in>set prose_fixes. \<not> occurs old (cps ''Tom - Jerry'')"
    by (simp add: prose_fixes_def)
  then have "fix_prose (cps ''Tom - Jerry'') = cps ''Tom - Jerry''"
    using prose_phrases by blast
  ultimately show ?thesis by simp
qed

end
